theory Spec2Isabelle
  imports Main
begin

section \<open>JavaScript strings and their primitives\<close>

text \<open>
  A JavaScript string is a sequence of code units. The model uses HOL's \<open>string\<close>
  (a list of 8-bit \<open>char\<close>): a document is a string of code units below 256.
  Of the code units that JavaScript counts as white space or line terminators
  (the class \<open>\s\<close> of a regular expression, which is also what \<open>trim\<close> removes),
  seven lie in that range: TAB, LF, VT, FF, CR, SPACE and NBSP.
\<close>

abbreviation LF :: char where "LF \<equiv> CHR 0x0A"
abbreviation CR :: char where "CR \<equiv> CHR 0x0D"
abbreviation BSL :: char where "BSL \<equiv> CHR 0x5C"

definition is_space :: "char \<Rightarrow> bool" where
  "is_space c \<longleftrightarrow>
     c = CHR 0x09 \<or> c = LF \<or> c = CHR 0x0B \<or> c = CHR 0x0C \<or> c = CR \<or> c = CHR 0x20 \<or> c = CHR 0xA0"

definition is_digit :: "char \<Rightarrow> bool" where
  "is_digit c \<longleftrightarrow> c \<in> set ''0123456789''"

definition any_char :: "char \<Rightarrow> bool" where
  "any_char c \<longleftrightarrow> True"

text \<open>\<open>String.prototype.trimStart\<close>, \<open>trimEnd\<close> and \<open>trim\<close>.\<close>

definition trimStart :: "string \<Rightarrow> string" where
  "trimStart s = dropWhile is_space s"

definition trimEnd :: "string \<Rightarrow> string" where
  "trimEnd s = rev (dropWhile is_space (rev s))"

definition trim :: "string \<Rightarrow> string" where
  "trim s = trimEnd (trimStart s)"

text \<open>\<open>Array.prototype.join("\n")\<close>.\<close>

fun join_lines :: "string list \<Rightarrow> string" where
  "join_lines [] = []"
| "join_lines [l] = l"
| "join_lines (l # ls) = l @ LF # join_lines ls"

text \<open>
  \<open>s.split(/\r?\n/)\<close>: the separator is looked for from left to right, a CR directly
  before an LF belongs to the separator, and the empty string splits into one empty line.
\<close>

fun split_lines :: "string \<Rightarrow> string list" where
  "split_lines [] = [[]]"
| "split_lines (c # cs) =
     (if c = LF then [] # split_lines cs
      else if c = CR \<and> cs \<noteq> [] \<and> hd cs = LF then [] # split_lines (tl cs)
      else (case split_lines cs of [] \<Rightarrow> [[c]] | l # ls \<Rightarrow> (c # l) # ls))"

text \<open>
  \<open>String.prototype.indexOf\<close> as a split of the string at the first occurrence of the
  pattern: the text before it and the text after it.
\<close>

fun find_first :: "string \<Rightarrow> string \<Rightarrow> (string \<times> string) option" where
  "find_first p [] = (if p = [] then Some ([], []) else None)"
| "find_first p (c # cs) =
     (if take (length p) (c # cs) = p then Some ([], drop (length p) (c # cs))
      else (case find_first p cs of None \<Rightarrow> None | Some (b, a) \<Rightarrow> Some (c # b, a)))"

text \<open>
  \<open>GetSubstitution\<close> for a string pattern (no capture groups, no named groups): in the
  replacement text \<open>$$\<close> stands for one dollar sign, \<open>$&\<close> for the matched text,
  \<open>$`\<close> for the text before the match and \<open>$'\<close> for the text after it; every other
  character, also a dollar sign before anything else, is copied.
\<close>

fun get_substitution :: "string \<Rightarrow> string \<Rightarrow> string \<Rightarrow> string \<Rightarrow> string" where
  "get_substitution matched pre post [] = []"
| "get_substitution matched pre post [c] = [c]"
| "get_substitution matched pre post (c # d # r) =
     (if c = CHR ''$'' \<and> d = CHR ''$'' then CHR ''$'' # get_substitution matched pre post r
      else if c = CHR ''$'' \<and> d = CHR ''&'' then matched @ get_substitution matched pre post r
      else if c = CHR ''$'' \<and> d = CHR 0x60 then pre @ get_substitution matched pre post r
      else if c = CHR ''$'' \<and> d = CHR 0x27 then post @ get_substitution matched pre post r
      else c # get_substitution matched pre post (d # r))"

text \<open>\<open>s.replace(pattern, replacement)\<close> with both arguments strings: the first occurrence only.\<close>

definition replace_str :: "string \<Rightarrow> string \<Rightarrow> string \<Rightarrow> string" where
  "replace_str pattern replacement s =
     (case find_first pattern s of
        None \<Rightarrow> s
      | Some (pre, post) \<Rightarrow> pre @ get_substitution pattern pre post replacement @ post)"

text \<open>The decimal digits of a number, as a template literal \<open>${i}\<close> prints it.\<close>

fun string_of_nat :: "nat \<Rightarrow> string" where
  "string_of_nat n =
     (if n < 10 then [char_of (48 + n)]
      else string_of_nat (n div 10) @ [char_of (48 + n mod 10)])"

section \<open>Regular expressions as backtracking matchers\<close>

text \<open>
  Each regular expression of the source is written out as the backtracking matcher it
  denotes, in continuation-passing style: a matcher takes the rest of the input and a
  continuation for what follows it in the pattern, and returns the first result that
  the continuation accepts, trying its own alternatives in the order of the JavaScript
  semantics (a greedy quantifier the longest repetition first, a lazy one the shortest).
\<close>

definition lit :: "string \<Rightarrow> string \<Rightarrow> (string \<Rightarrow> 'r option) \<Rightarrow> 'r option" where
  "lit p s k = (if take (length p) s = p then k (drop (length p) s) else None)"

definition cls :: "(char \<Rightarrow> bool) \<Rightarrow> string \<Rightarrow> (string \<Rightarrow> 'r option) \<Rightarrow> 'r option" where
  "cls P s k = (case s of [] \<Rightarrow> None | c # cs \<Rightarrow> if P c then k cs else None)"

definition orelse :: "'r option \<Rightarrow> 'r option \<Rightarrow> 'r option" where
  "orelse a b = (case a of Some r \<Rightarrow> Some r | None \<Rightarrow> b)"

definition eos :: "string \<Rightarrow> (string \<Rightarrow> 'r option) \<Rightarrow> 'r option" where
  "eos s k = (if s = [] then k s else None)"

fun star_greedy :: "(char \<Rightarrow> bool) \<Rightarrow> string \<Rightarrow> (string \<Rightarrow> 'r option) \<Rightarrow> 'r option" where
  "star_greedy P [] k = k []"
| "star_greedy P (c # cs) k =
     (if P c then orelse (star_greedy P cs k) (k (c # cs)) else k (c # cs))"

fun star_lazy :: "(char \<Rightarrow> bool) \<Rightarrow> string \<Rightarrow> (string \<Rightarrow> 'r option) \<Rightarrow> 'r option" where
  "star_lazy P [] k = k []"
| "star_lazy P (c # cs) k =
     orelse (k (c # cs)) (if P c then star_lazy P cs k else None)"

definition plus_greedy :: "(char \<Rightarrow> bool) \<Rightarrow> string \<Rightarrow> (string \<Rightarrow> 'r option) \<Rightarrow> 'r option" where
  "plus_greedy P s k = cls P s (\<lambda>s'. star_greedy P s' k)"

text \<open>At most \<open>n\<close> repetitions, the longest first: with one \<open>cls\<close> before it, \<open>{1,n+1}\<close>.\<close>

fun upto_greedy :: "nat \<Rightarrow> (char \<Rightarrow> bool) \<Rightarrow> string \<Rightarrow> (string \<Rightarrow> 'r option) \<Rightarrow> 'r option" where
  "upto_greedy 0 P s k = k s"
| "upto_greedy (Suc n) P [] k = k []"
| "upto_greedy (Suc n) P (c # cs) k =
     (if P c then orelse (upto_greedy n P cs k) (k (c # cs)) else k (c # cs))"

text \<open>
  \<open>s.replace(regex, callback)\<close> with a global regular expression. The matcher \<open>rx\<close>
  answers for a match that starts at the head of its argument, with the captures and
  the length of the match; the callback gets the matched text and the captures. The
  callback of the code-block protection pushes on an array, so the callback threads a
  state. After an empty match the scan moves on by one code unit, which it copies.
\<close>

fun replace_all ::
  "(string \<Rightarrow> ('m \<times> nat) option) \<Rightarrow> ('st \<Rightarrow> string \<Rightarrow> 'm \<Rightarrow> string \<times> 'st) \<Rightarrow> 'st \<Rightarrow> string \<Rightarrow> string \<times> 'st"
where
  "replace_all rx f st [] =
     (case rx [] of None \<Rightarrow> ([], st) | Some (m, n) \<Rightarrow> f st [] m)"
| "replace_all rx f st (c # cs) =
     (case rx (c # cs) of
        None \<Rightarrow> (let (out, st') = replace_all rx f st cs in (c # out, st'))
      | Some (m, n) \<Rightarrow>
          (let (r, st1) = f st (take n (c # cs)) m in
           if n = 0 then (let (out, st2) = replace_all rx f st1 cs in (r @ c # out, st2))
           else (let (out, st2) = replace_all rx f st1 (drop (n - 1) cs) in (r @ out, st2))))"

text \<open>The same with a callback that keeps no state.\<close>

definition replace_fn :: "(string \<Rightarrow> ('m \<times> nat) option) \<Rightarrow> (string \<Rightarrow> 'm \<Rightarrow> string) \<Rightarrow> string \<Rightarrow> string" where
  "replace_fn rx f s = fst (replace_all rx (\<lambda>st mt m. (f mt m, st)) () s)"

section \<open>The regular expressions of the source\<close>

text \<open>\<open>/^\s*#{1,6}\s+/\<close>, the test of a heading line.\<close>

definition heading_re :: "string \<Rightarrow> unit option" where
  "heading_re s =
     star_greedy is_space s (\<lambda>s1.
     cls (\<lambda>c. c = CHR ''#'') s1 (\<lambda>s2.
     upto_greedy 5 (\<lambda>c. c = CHR ''#'') s2 (\<lambda>s3.
     plus_greedy is_space s3 (\<lambda>s4. Some ()))))"

text \<open>\<open>/^\s*([-*+]|\d+\.)\s+/\<close>, the test of a list item.\<close>

definition list_re :: "string \<Rightarrow> unit option" where
  "list_re s =
     star_greedy is_space s (\<lambda>s1.
     orelse
       (cls (\<lambda>c. c = CHR ''-'' \<or> c = CHR ''*'' \<or> c = CHR ''+'') s1 (\<lambda>s2.
        plus_greedy is_space s2 (\<lambda>s3. Some ())))
       (plus_greedy is_digit s1 (\<lambda>s2.
        cls (\<lambda>c. c = CHR ''.'') s2 (\<lambda>s3.
        plus_greedy is_space s3 (\<lambda>s4. Some ())))))"

text \<open>
  \<open>/\\\[\s*([\s\S]*?)\s*\\\]/\<close> and \<open>/\\\(\s*([\s\S]*?)\s*\\\)/\<close>: the two patterns differ in
  their delimiters only. The result is the text of the capture group and the length of
  the match.
\<close>

definition delimited_re :: "string \<Rightarrow> string \<Rightarrow> string \<Rightarrow> (string \<times> nat) option" where
  "delimited_re opening closing s =
     lit opening s (\<lambda>s1.
     star_greedy is_space s1 (\<lambda>s2.
     star_lazy any_char s2 (\<lambda>s3.
     star_greedy is_space s3 (\<lambda>s4.
     lit closing s4 (\<lambda>s5.
       Some (take (length s2 - length s3) s2, length s - length s5))))))"

definition display_re :: "string \<Rightarrow> (string \<times> nat) option" where
  "display_re = delimited_re [BSL, CHR ''[''] [BSL, CHR '']'']"

definition inline_re :: "string \<Rightarrow> (string \<times> nat) option" where
  "inline_re = delimited_re [BSL, CHR ''(''] [BSL, CHR '')'']"

text \<open>\<open>/\n{3,}/\<close>.\<close>

definition newlines_re :: "string \<Rightarrow> (unit \<times> nat) option" where
  "newlines_re s =
     cls (\<lambda>c. c = LF) s (\<lambda>s1.
     cls (\<lambda>c. c = LF) s1 (\<lambda>s2.
     cls (\<lambda>c. c = LF) s2 (\<lambda>s3.
     star_greedy (\<lambda>c. c = LF) s3 (\<lambda>s4. Some ((), length s - length s4)))))"

text \<open>
  \<open>/^---\s*[\r\n]([\s\S]*?)[\r\n]---\s*([\r\n]|$)/\<close>: without the flag \<open>m\<close> the anchor
  \<open>^\<close> holds at position 0 only and \<open>$\<close> at the end of the input only, so the only
  match that \<open>String.prototype.match\<close> can find starts the document. The result is the
  length of the match.
\<close>

definition is_crlf :: "char \<Rightarrow> bool" where
  "is_crlf c \<longleftrightarrow> c = CR \<or> c = LF"

definition yamlRegex :: "string \<Rightarrow> nat option" where
  "yamlRegex s =
     lit ''---'' s (\<lambda>s1.
     star_greedy is_space s1 (\<lambda>s2.
     cls is_crlf s2 (\<lambda>s3.
     star_lazy any_char s3 (\<lambda>s4.
     cls is_crlf s4 (\<lambda>s5.
     lit ''---'' s5 (\<lambda>s6.
     star_greedy is_space s6 (\<lambda>s7.
     orelse
       (cls is_crlf s7 (\<lambda>s8. Some (length s - length s8)))
       (eos s7 (\<lambda>s8. Some (length s - length s8))))))))))"

text \<open>\<open>/```[\s\S]*?```/\<close>.\<close>

definition fence :: string where
  "fence = [CHR 0x60, CHR 0x60, CHR 0x60]"

definition codeBlockRegex :: "string \<Rightarrow> (unit \<times> nat) option" where
  "codeBlockRegex s =
     lit fence s (\<lambda>s1.
     star_lazy any_char s1 (\<lambda>s2.
     lit fence s2 (\<lambda>s3. Some ((), length s - length s3))))"

section \<open>The normalizer: \<open>modifyContentProtected\<close>\<close>

datatype line_type = Heading | ListItem | Other

definition isBlank :: "string \<Rightarrow> bool" where
  "isBlank rawLine \<longleftrightarrow> trim rawLine = []"

definition isHeading :: "string \<Rightarrow> bool" where
  "isHeading rawLine \<longleftrightarrow> heading_re rawLine \<noteq> None"

definition isListItem :: "string \<Rightarrow> bool" where
  "isListItem rawLine \<longleftrightarrow> list_re rawLine \<noteq> None"

text \<open>
  The loop \<open>while (newLines.length > 0 && newLines[newLines.length - 1].trim() === "")
  newLines.pop()\<close>.
\<close>

function pop_blank :: "string list \<Rightarrow> string list" where
  "pop_blank newLines =
     (if newLines \<noteq> [] \<and> trim (last newLines) = [] then pop_blank (butlast newLines)
      else newLines)"
  by pat_completeness auto
termination
  by (relation "measure length") auto

declare pop_blank.simps [simp del]

text \<open>
  One turn of the loop over \<open>lines\<close>, for the line \<open>rawLine = lines[i]\<close>. The
  argument \<open>rest\<close> is what follows it in \<open>lines\<close>, so that \<open>i + 1 < lines.length\<close>
  says that \<open>rest\<close> is not empty and \<open>lines[i + 1]\<close> is its head; \<open>newLines.push\<close>
  appends. The result is the new \<open>newLines\<close> and the new \<open>lastMeaningfulType\<close>. The
  two conditionals of the heading branch whose bodies are comments only are left out.
\<close>

definition loop_body ::
  "string \<Rightarrow> string list \<Rightarrow> string list \<Rightarrow> line_type option \<Rightarrow> string list \<times> line_type option"
where
  "loop_body rawLine rest newLines lastMeaningfulType =
     (if isHeading rawLine then
        (let newLines1 =
               (if newLines \<noteq> [] \<and> trim (last newLines) \<noteq> [] then newLines @ [[]]
                else newLines);
             newLines2 = newLines1 @ [trimEnd rawLine];
             newLines3 =
               (if rest \<noteq> [] \<and> trim (hd rest) \<noteq> [] then newLines2 @ [[]] else newLines2)
         in (newLines3, Some Heading))
      else if isListItem rawLine then
        (let newLines1 =
               (if lastMeaningfulType = Some ListItem then pop_blank newLines else newLines)
         in (newLines1 @ [trimEnd rawLine], Some ListItem))
      else if isBlank rawLine then
        (if newLines = [] \<or> trim (last newLines) \<noteq> [] then newLines @ [[]] else newLines,
         lastMeaningfulType)
      else
        (let newLines1 =
               (if lastMeaningfulType = Some ListItem \<and> newLines \<noteq> [] \<and>
                   trim (last newLines) \<noteq> []
                then newLines @ [[]] else newLines)
         in (newLines1 @ [trimEnd rawLine], Some Other)))"

text \<open>The loop \<open>for (let i = 0; i < lines.length; i++)\<close>; its result is \<open>newLines\<close>.\<close>

fun line_loop :: "string list \<Rightarrow> string list \<Rightarrow> line_type option \<Rightarrow> string list" where
  "line_loop [] newLines lastMeaningfulType = newLines"
| "line_loop (rawLine # rest) newLines lastMeaningfulType =
     (case loop_body rawLine rest newLines lastMeaningfulType of
        (newLines', lastMeaningfulType') \<Rightarrow> line_loop rest newLines' lastMeaningfulType')"

text \<open>The two math passes, display math first.\<close>

definition rewrite_display :: "string \<Rightarrow> string" where
  "rewrite_display content =
     replace_fn display_re (\<lambda>match inner. ''$$'' @ trim inner @ ''$$'') content"

definition rewrite_inline :: "string \<Rightarrow> string" where
  "rewrite_inline content =
     replace_fn inline_re (\<lambda>match inner. ''$'' @ trim inner @ ''$'') content"

text \<open>The post-pass: join, collapse runs of three or more line feeds, trim.\<close>

definition finish :: "string list \<Rightarrow> string" where
  "finish newLines =
     (let finalContent = join_lines newLines;
          finalContent = replace_fn newlines_re (\<lambda>_ _. [LF, LF]) finalContent
      in trim finalContent)"

text \<open>The second half of the function: split, loop, post-pass.\<close>

definition normalize_lines :: "string \<Rightarrow> string" where
  "normalize_lines newContent = finish (line_loop (split_lines newContent) [] None)"

definition modifyContentProtected :: "string \<Rightarrow> string" where
  "modifyContentProtected content =
     (let newContent = rewrite_display content;
          newContent = rewrite_inline newContent
      in normalize_lines newContent)"

section \<open>The orchestrator: the callback of the ribbon icon\<close>

definition placeholder_token :: "nat \<Rightarrow> string" where
  "placeholder_token i = ''%%%CODEBLOCK_PLACEHOLDER_'' @ string_of_nat i @ ''%%%''"

text \<open>Step 1: the frontmatter and the rest of the document.\<close>

definition split_frontmatter :: "string \<Rightarrow> string \<times> string" where
  "split_frontmatter originalFileContent =
     (case yamlRegex originalFileContent of
        None \<Rightarrow> ([], originalFileContent)
      | Some n \<Rightarrow> (take n originalFileContent, drop n originalFileContent))"

text \<open>
  Step 2: every fenced block is pushed on \<open>placeholders\<close> and replaced by the token of
  its index. The result is \<open>tempContent\<close> and \<open>placeholders\<close>.
\<close>

definition protect_code :: "string \<Rightarrow> string \<times> string list" where
  "protect_code fileContentToProcess =
     replace_all codeBlockRegex
       (\<lambda>placeholders match _.
          (let placeholders' = placeholders @ [match]
           in (placeholder_token (length placeholders' - 1), placeholders')))
       [] fileContentToProcess"

text \<open>Step 4: the loop \<open>for (let i = 0; i < placeholders.length; i++)\<close>.\<close>

definition restore_code :: "string list \<Rightarrow> string \<Rightarrow> string" where
  "restore_code placeholders modifiedContent =
     fold (\<lambda>i finalContent. replace_str (placeholder_token i) (placeholders ! i) finalContent)
       [0..<length placeholders] modifiedContent"

text \<open>Steps 1 to 5: the new content of the file.\<close>

definition lint :: "string \<Rightarrow> string" where
  "lint originalFileContent =
     (let (frontmatter, fileContentToProcess) = split_frontmatter originalFileContent;
          (tempContent, placeholders) = protect_code fileContentToProcess;
          modifiedContent = modifyContentProtected tempContent;
          finalContent = restore_code placeholders modifiedContent
      in frontmatter @ finalContent)"

section \<open>Notions used in the statements and proofs\<close>

text \<open>What follows the marker of a heading or of a list item: a white-space character.\<close>

definition after_marker :: "string \<Rightarrow> bool" where
  "after_marker t \<longleftrightarrow> t \<noteq> [] \<and> is_space (hd t)"

text \<open>The marker of a list item: a bullet, or digits and a full stop.\<close>

definition is_marker :: "string \<Rightarrow> bool" where
  "is_marker m \<longleftrightarrow>
     m = ''-'' \<or> m = ''*'' \<or> m = ''+'' \<or>
     (\<exists>d. d \<noteq> [] \<and> (\<forall>x\<in>set d. is_digit x) \<and> m = d @ ''.'')"


definition last_nonblank :: "string list \<Rightarrow> string option" where
  "last_nonblank newLines =
     (case dropWhile isBlank (rev newLines) of [] \<Rightarrow> None | e # _ \<Rightarrow> Some e)"

definition tracks :: "string list \<Rightarrow> line_type option \<Rightarrow> bool" where
  "tracks newLines lastMeaningfulType \<longleftrightarrow>
     (case last_nonblank newLines of
        None \<Rightarrow> True
      | Some e \<Rightarrow> (isHeading e \<longrightarrow> lastMeaningfulType = Some Heading) \<and>
                  (isListItem e \<longrightarrow> lastMeaningfulType = Some ListItem))"

definition not_both_blank :: "string \<Rightarrow> string \<Rightarrow> bool" where
  "not_both_blank a b \<longleftrightarrow> \<not> (isBlank a \<and> isBlank b)"

definition heading_spaced :: "string \<Rightarrow> string \<Rightarrow> bool" where
  "heading_spaced a b \<longleftrightarrow> (isHeading a \<longrightarrow> isBlank b) \<and> (isHeading b \<longrightarrow> isBlank a)"

definition gap_free :: "string list \<Rightarrow> bool" where
  "gap_free ls \<longleftrightarrow>
     (\<forall>pre a bs b post.
        ls = pre @ a # bs @ b # post \<and> isListItem a \<and> isListItem b \<and> (\<forall>x\<in>set bs. isBlank x)
        \<longrightarrow> bs = [])"

definition heading_inv :: "string list \<Rightarrow> string list \<Rightarrow> line_type option \<Rightarrow> bool" where
  "heading_inv rest nl lmt \<longleftrightarrow>
     tracks nl lmt \<and> successively heading_spaced nl \<and>
     (nl \<noteq> [] \<and> isHeading (last nl) \<longrightarrow> rest = [] \<or> isBlank (hd rest))"

definition loop_inv :: "string list \<Rightarrow> string list \<Rightarrow> line_type option \<Rightarrow> bool" where
  "loop_inv rest nl lmt \<longleftrightarrow>
     successively not_both_blank nl \<and> heading_inv rest nl lmt \<and> gap_free nl"

text \<open>No run of three line feeds, after \<open>k\<close> line feeds already read.\<close>

fun lf_run_ok :: "nat \<Rightarrow> string \<Rightarrow> bool" where
  "lf_run_ok k [] = True"
| "lf_run_ok k (c # cs) = (if c = LF then k < 2 \<and> lf_run_ok (Suc k) cs else lf_run_ok 0 cs)"

definition lead_lf :: "string \<Rightarrow> nat" where
  "lead_lf s = length (takeWhile (\<lambda>c. c = LF) s)"

definition collapse :: "string \<Rightarrow> string" where
  "collapse s = replace_fn newlines_re (\<lambda>_ _. [LF, LF]) s"

text \<open>
  The lines of the result, from \<open>newLines\<close>: without the blank entries at both ends,
  and the first of them without its leading white space.
\<close>

definition strip_blank :: "string list \<Rightarrow> string list" where
  "strip_blank ls = dropWhile isBlank (rev (dropWhile isBlank (rev ls)))"

definition out_lines :: "string list \<Rightarrow> string list" where
  "out_lines ls = (case strip_blank ls of [] \<Rightarrow> [] | e # r \<Rightarrow> trimStart e # r)"

definition clean_entries :: "string list \<Rightarrow> bool" where
  "clean_entries ls \<longleftrightarrow> (\<forall>e\<in>set ls. LF \<notin> set e \<and> trimEnd e = e)"

text \<open>The documents in which the pattern of the frontmatter finds a match.\<close>

definition frontmatter_shape :: "string \<Rightarrow> bool" where
  "frontmatter_shape d \<longleftrightarrow>
     (\<exists>w c1 y c2 v rest.
        d = ''---'' @ w @ c1 # y @ c2 # ''---'' @ v @ rest \<and>
        (\<forall>x\<in>set w. is_space x) \<and> is_crlf c1 \<and> is_crlf c2 \<and>
        (\<forall>x\<in>set v. is_space x) \<and> (rest = [] \<or> is_crlf (hd rest)))"

text \<open>The text of a frontmatter: what a match of its pattern consumes.\<close>

definition frontmatter_text :: "string \<Rightarrow> bool" where
  "frontmatter_text fm \<longleftrightarrow>
     (\<exists>w c1 y c2 v.
        fm = ''---'' @ w @ c1 # y @ c2 # ''---'' @ v \<and>
        (\<forall>x\<in>set w. is_space x) \<and> is_crlf c1 \<and> is_crlf c2 \<and> (\<forall>x\<in>set v. is_space x))"


definition is_other :: "string \<Rightarrow> bool" where
  "is_other l \<longleftrightarrow> \<not> isHeading l \<and> \<not> isListItem l \<and> \<not> isBlank l"

definition list_sep :: "string \<Rightarrow> string \<Rightarrow> bool" where
  "list_sep a b \<longleftrightarrow> \<not> (isListItem a \<and> is_other b)"


text \<open>The type of the last entry that is not blank, as the loop would have set it.\<close>

definition lmt_of :: "string list \<Rightarrow> line_type option" where
  "lmt_of nl =
     (case last_nonblank nl of
        None \<Rightarrow> None
      | Some e \<Rightarrow> if isHeading e then Some Heading
                  else if isListItem e then Some ListItem else Some Other)"


text \<open>
  The math rewriter in the words of the specification, for one pass: from left to
  right, every span that starts with a backslash and the opening bracket and ends at
  the next backslash and closing bracket is replaced by its content, trimmed, between
  the dollar signs; an opening delimiter with no closing one after it is left as it is.
\<close>

function spec_rewrite_spans :: "char \<Rightarrow> char \<Rightarrow> string \<Rightarrow> string \<Rightarrow> string" where
  "spec_rewrite_spans opening closing dollars [] = []"
| "spec_rewrite_spans opening closing dollars [x] = [x]"
| "spec_rewrite_spans opening closing dollars (x # y # s) =
     (if x = BSL \<and> y = opening then
        (case find_first [BSL, closing] s of
           Some (content, rest) \<Rightarrow>
             dollars @ trim content @ dollars @ spec_rewrite_spans opening closing dollars rest
         | None \<Rightarrow> x # spec_rewrite_spans opening closing dollars (y # s))
      else x # spec_rewrite_spans opening closing dollars (y # s))"
  by pat_completeness auto
termination
proof (relation "measure (\<lambda>(opening, closing, dollars, s). length s)")
  have len: "find_first p s = Some (b, a) \<Longrightarrow> length a \<le> length s" for p s b a
    by (induction s arbitrary: b) (auto split: if_splits option.splits)
  fix closing :: char and x :: char and s :: string and x2 :: "string \<times> string"
    and xa ya :: string and opn :: char and dollars :: string and y :: char
  assume "find_first [BSL, closing] s = Some x2" and "(xa, ya) = x2"
  then have "length ya \<le> length s" using len [of "[BSL, closing]" s xa ya] by simp
  then show "((opn, closing, dollars, ya), (opn, closing, dollars, x # y # s))
      \<in> measure (\<lambda>(opening, closing, dollars, s). length s)" by simp
qed simp_all

text \<open>
  Code-block protection in the words of the specification: from left to right, a span
  from a fence to the next fence after it is a code block, which is put on the list and
  replaced by the token of its index; the scan goes on after the closing fence. A fence
  with no fence after it opens no block: it stays in the text with all that follows.
\<close>

function spec_protect :: "nat \<Rightarrow> string \<Rightarrow> string \<times> string list" where
  "spec_protect i s =
     (case find_first fence s of
        None \<Rightarrow> (s, [])
      | Some (pre, post) \<Rightarrow>
          (case find_first fence post of
             None \<Rightarrow> (s, [])
           | Some (body, rest) \<Rightarrow>
               (let (t, blocks) = spec_protect (Suc i) rest
                in (pre @ placeholder_token i @ t, (fence @ body @ fence) # blocks))))"
  by pat_completeness auto
termination
proof (relation "measure (\<lambda>(i, s). length s)")
  have len: "find_first p s = Some (b, a) \<Longrightarrow> length b + length p + length a = length s"
    for p s b a
  proof (induction s arbitrary: b)
    case Nil
    then show ?case by (auto split: if_splits)
  next
    case (Cons c cs)
    show ?case
    proof (cases "take (length p) (c # cs) = p")
      case True
      then have "length (take (length p) (c # cs)) = length p" by simp
      then have "length p \<le> length (c # cs)" by (metis length_take min.cobounded1)
      with True Cons.prems show ?thesis by auto
    next
      case False
      with Cons.prems obtain b' where "find_first p cs = Some (b', a)" "b = c # b'"
        by (auto split: option.splits)
      with Cons.IH show ?thesis by auto
    qed
  qed
  fix s :: string and x2 :: "string \<times> string" and pre post :: string
    and x2a :: "string \<times> string" and body rest :: string and i :: nat
  assume "find_first fence s = Some x2" and "(pre, post) = x2"
    and "find_first fence post = Some x2a" and "(body, rest) = x2a"
  then have "length pre + length fence + length post = length s"
    and "length body + length fence + length rest = length post"
    using len [of fence s pre post] len [of fence post body rest] by simp_all
  then show "((Suc i, rest), (i, s)) \<in> measure (\<lambda>(i, s). length s)" by (simp add: fence_def)
qed simp
declare spec_protect.simps [simp del]

text \<open>
  The text from the fence that no later fence closes, when there is one: what is left
  of the text after its code blocks starts with a fence and has no fence after it.
\<close>

function unclosed_fence :: "string \<Rightarrow> string option" where
  "unclosed_fence s =
     (case find_first fence s of
        None \<Rightarrow> None
      | Some (pre, post) \<Rightarrow>
          (case find_first fence post of
             None \<Rightarrow> Some (fence @ post)
           | Some (body, rest) \<Rightarrow> unclosed_fence rest))"
  by pat_completeness auto
termination
proof (relation "measure length")
  have len: "find_first p s = Some (b, a) \<Longrightarrow> length b + length p + length a = length s"
    for p s b a
  proof (induction s arbitrary: b)
    case Nil
    then show ?case by (auto split: if_splits)
  next
    case (Cons c cs)
    show ?case
    proof (cases "take (length p) (c # cs) = p")
      case True
      then have "length (take (length p) (c # cs)) = length p" by simp
      then have "length p \<le> length (c # cs)" by (metis length_take min.cobounded1)
      with True Cons.prems show ?thesis by auto
    next
      case False
      with Cons.prems obtain b' where "find_first p cs = Some (b', a)" "b = c # b'"
        by (auto split: option.splits)
      with Cons.IH show ?thesis by auto
    qed
  qed
  fix s :: string and x2 :: "string \<times> string" and pre post :: string
    and x2a :: "string \<times> string" and body rest :: string
  assume "find_first fence s = Some x2" and "(pre, post) = x2"
    and "find_first fence post = Some x2a" and "(body, rest) = x2a"
  then have "length pre + length fence + length post = length s"
    and "length body + length fence + length rest = length post"
    using len [of fence s pre post] len [of fence post body rest] by simp_all
  then show "(rest, s) \<in> measure length" by (simp add: fence_def)
qed simp
declare unclosed_fence.simps [simp del]

section \<open>Backtracking matchers: what the quantifiers return\<close>

lemma orelse_simps [simp]: "orelse None b = b" "orelse (Some r) b = Some r"
  by (simp_all add: orelse_def)

lemma orelse_None_iff [simp]: "orelse a b = None \<longleftrightarrow> a = None \<and> b = None"
  by (cases a) simp_all

lemma star_greedy_skip:
  assumes "\<And>c cs. P c \<Longrightarrow> k (c # cs) = None"
  shows "star_greedy P s k = k (dropWhile P s)"
proof (induction s)
  case Nil
  show ?case by simp
next
  case (Cons c cs)
  show ?case
  proof (cases "P c")
    case True
    then have "k (c # cs) = None" by (rule assms)
    with True Cons show ?thesis by (cases "k (dropWhile P cs)") simp_all
  next
    case False
    then show ?thesis by simp
  qed
qed

lemma star_greedy_total [simp]: "star_greedy P s (\<lambda>_. Some r) = Some r"
  by (induction s) simp_all

lemma plus_greedy_total:
  "plus_greedy P s (\<lambda>_. Some r) = (case s of [] \<Rightarrow> None | c # _ \<Rightarrow> if P c then Some r else None)"
  by (simp add: plus_greedy_def cls_def)

lemma upto_greedy_skip:
  assumes "\<And>c cs. P c \<Longrightarrow> k (c # cs) = None"
  shows "upto_greedy n P s k = k (drop (min n (length (takeWhile P s))) s)"
  using assms
proof (induction n P s k rule: upto_greedy.induct)
  case (3 n P c cs k)
  show ?case
  proof (cases "P c")
    case True
    then have "k (c # cs) = None" by (rule "3.prems")
    with True "3.IH" "3.prems" show ?thesis
      by (cases "k (drop (min n (length (takeWhile P cs))) cs)") simp_all
  next
    case False
    then show ?thesis by simp
  qed
qed simp_all

lemma not_space_marker:
  "is_space c \<Longrightarrow> c \<noteq> CHR ''#'' \<and> c \<noteq> CHR ''-'' \<and> c \<noteq> CHR ''*'' \<and> c \<noteq> CHR ''+'' \<and> c \<noteq> CHR ''.'' \<and> \<not> is_digit c \<and> c \<noteq> BSL \<and> c \<noteq> CHR 0x60"
  by (auto simp: is_space_def is_digit_def)

lemma after_marker_hash: "after_marker (drop 5 s) \<Longrightarrow> length (takeWhile (\<lambda>c. c = CHR ''#'') s) \<le> 5"
proof (rule ccontr)
  assume a: "after_marker (drop 5 s)" and "\<not> length (takeWhile (\<lambda>c. c = CHR ''#'') s) \<le> 5"
  then have 5: "5 < length (takeWhile (\<lambda>c. c = CHR ''#'') s)" by simp
  then have "takeWhile (\<lambda>c. c = CHR ''#'') s ! 5 = s ! 5" by (rule takeWhile_nth)
  moreover have "takeWhile (\<lambda>c. c = CHR ''#'') s ! 5 \<in> set (takeWhile (\<lambda>c. c = CHR ''#'') s)"
    using 5 by (rule nth_mem)
  ultimately have "s ! 5 = CHR ''#''" by (auto dest: set_takeWhileD)
  moreover have "5 < length s" using 5 length_takeWhile_le [of "\<lambda>c. c = CHR ''#''" s] by simp
  ultimately have "hd (drop 5 s) = CHR ''#''" by (simp add: hd_drop_conv_nth)
  with a show False by (auto simp: after_marker_def dest: not_space_marker)
qed

lemma isHeading_iff:
  "isHeading l \<longleftrightarrow>
     (let r = dropWhile is_space l; h = takeWhile (\<lambda>c. c = CHR ''#'') r
      in 1 \<le> length h \<and> length h \<le> 6 \<and> after_marker (drop (length h) r))"
proof -
  define r where "r = dropWhile is_space l"
  let ?H = "\<lambda>c. c = CHR ''#''"
  have k: "plus_greedy is_space s (\<lambda>s4. Some ()) = (if after_marker s then Some () else None)" for s
    by (cases s) (simp_all add: plus_greedy_total after_marker_def)
  have k2: "upto_greedy 5 ?H s (\<lambda>s3. plus_greedy is_space s3 (\<lambda>s4. Some ())) =
            (if after_marker (drop (min 5 (length (takeWhile ?H s))) s) then Some () else None)" for s
    by (subst upto_greedy_skip) (auto simp: k after_marker_def dest: not_space_marker)
  have "heading_re l = cls ?H r (\<lambda>s2. upto_greedy 5 ?H s2 (\<lambda>s3. plus_greedy is_space s3 (\<lambda>s4. Some ())))"
    unfolding heading_re_def r_def
    by (rule star_greedy_skip) (auto simp: cls_def dest: not_space_marker)
  then have hr: "heading_re l =
      (case r of [] \<Rightarrow> None
       | c # s2 \<Rightarrow> if c = CHR ''#'' \<and> after_marker (drop (min 5 (length (takeWhile ?H s2))) s2)
                  then Some () else None)"
    by (cases r) (simp_all add: cls_def k2)
  have "isHeading l \<longleftrightarrow>
     (let h = takeWhile ?H r in 1 \<le> length h \<and> length h \<le> 6 \<and> after_marker (drop (length h) r))"
  proof (cases r)
    case Nil
    then show ?thesis by (simp add: isHeading_def hr)
  next
    case (Cons c s2)
    show ?thesis
    proof (cases "c = CHR ''#''")
      case False
      with Cons show ?thesis by (simp add: isHeading_def hr)
    next
      case True
      show ?thesis
      proof (cases "length (takeWhile ?H s2) \<le> 5")
        case le: True
        with Cons True show ?thesis by (simp add: isHeading_def hr min_def)
      next
        case gt: False
        then have "\<not> after_marker (drop 5 s2)" using after_marker_hash by blast
        with gt Cons True show ?thesis by (simp add: isHeading_def hr min_def)
      qed
    qed
  qed
  then show ?thesis by (simp add: r_def Let_def)
qed

lemma isListItem_iff:
  "isListItem l \<longleftrightarrow>
     (let r = dropWhile is_space l; d = takeWhile is_digit r
      in (r \<noteq> [] \<and> hd r \<in> {CHR ''-'', CHR ''*'', CHR ''+''} \<and> after_marker (tl r)) \<or>
         (d \<noteq> [] \<and> take 1 (drop (length d) r) = ''.'' \<and> after_marker (drop (Suc (length d)) r)))"
proof -
  define r where "r = dropWhile is_space l"
  define K :: "string \<Rightarrow> unit option" where "K = (\<lambda>s. plus_greedy is_space s (\<lambda>s'. Some ()))"
  define D :: "string \<Rightarrow> unit option" where "D = (\<lambda>s. cls (\<lambda>c. c = CHR ''.'') s K)"
  let ?B = "\<lambda>c. c = CHR ''-'' \<or> c = CHR ''*'' \<or> c = CHR ''+''"
  have K: "K s = (if after_marker s then Some () else None)" for s
    by (cases s) (simp_all add: K_def plus_greedy_total after_marker_def)
  have D: "D s = (if take 1 s = ''.'' \<and> after_marker (drop 1 s) then Some () else None)" for s
    by (cases s) (simp_all add: D_def cls_def K)
  have num: "plus_greedy is_digit s D =
      (if takeWhile is_digit s \<noteq> [] \<and> take 1 (drop (length (takeWhile is_digit s)) s) = ''.'' \<and>
          after_marker (drop (Suc (length (takeWhile is_digit s))) s)
       then Some () else None)" for s
  proof (cases s)
    case Nil
    then show ?thesis by (simp add: plus_greedy_def cls_def)
  next
    case (Cons c cs)
    have "star_greedy is_digit cs D = D (dropWhile is_digit cs)"
      by (rule star_greedy_skip) (auto simp: D is_digit_def)
    with Cons show ?thesis
      by (simp add: plus_greedy_def cls_def D dropWhile_eq_drop)
  qed
  have "list_re l = orelse (cls ?B r K) (plus_greedy is_digit r D)"
    unfolding list_re_def r_def K_def D_def
    by (rule star_greedy_skip) (auto simp: cls_def plus_greedy_def dest: not_space_marker)
  then have "isListItem l \<longleftrightarrow>
      (r \<noteq> [] \<and> hd r \<in> {CHR ''-'', CHR ''*'', CHR ''+''} \<and> after_marker (tl r)) \<or>
      (takeWhile is_digit r \<noteq> [] \<and> take 1 (drop (length (takeWhile is_digit r)) r) = ''.'' \<and>
       after_marker (drop (Suc (length (takeWhile is_digit r))) r))"
    by (cases r) (auto simp: isListItem_def num cls_def K split: if_splits)
  then show ?thesis by (simp add: r_def Let_def)
qed

section \<open>White space and trimming\<close>

lemma trimStart_Nil_iff: "trimStart s = [] \<longleftrightarrow> (\<forall>c\<in>set s. is_space c)"
  by (simp add: trimStart_def dropWhile_eq_Nil_conv)

lemma trimEnd_Nil_iff: "trimEnd s = [] \<longleftrightarrow> (\<forall>c\<in>set s. is_space c)"
  by (simp add: trimEnd_def dropWhile_eq_Nil_conv)

lemma isBlank_iff: "isBlank s \<longleftrightarrow> (\<forall>c\<in>set s. is_space c)"
proof -
  have "set (dropWhile is_space s) \<subseteq> set s" by (rule set_dropWhileD [THEN subsetI]) 
  then show ?thesis
    unfolding isBlank_def trim_def trimEnd_Nil_iff trimStart_def
    by (metis dropWhile_eq_Nil_conv hd_dropWhile list.set_sel(1) subsetD)
qed

lemma isBlank_Nil [simp]: "isBlank []"
  by (simp add: isBlank_iff)

lemma trim_Nil_iff: "trim s = [] \<longleftrightarrow> isBlank s"
  by (simp add: isBlank_def)

lemma trimEnd_eq_Nil: "trimEnd s = [] \<longleftrightarrow> isBlank s"
  by (simp add: trimEnd_Nil_iff isBlank_iff)

lemma trimStart_eq_Nil: "trimStart s = [] \<longleftrightarrow> isBlank s"
  by (simp add: trimStart_Nil_iff isBlank_iff)

lemma trimEnd_Nil [simp]: "trimEnd [] = []"
  by (simp add: trimEnd_def)

lemma trimStart_Nil [simp]: "trimStart [] = []"
  by (simp add: trimStart_def)

lemma trimEnd_decomp: "s = trimEnd s @ rev (takeWhile is_space (rev s))"
proof -
  have "rev s = takeWhile is_space (rev s) @ dropWhile is_space (rev s)" by simp
  then have "rev (rev s) = rev (takeWhile is_space (rev s) @ dropWhile is_space (rev s))" by simp
  then show ?thesis unfolding trimEnd_def by (simp del: takeWhile_dropWhile_id)
qed

lemma trimEnd_append_space: "\<forall>c\<in>set w. is_space c \<Longrightarrow> trimEnd (s @ w) = trimEnd s"
  by (simp add: trimEnd_def dropWhile_append)

lemma trimEnd_snoc:
  "trimEnd (s @ [c]) = (if is_space c then trimEnd s else s @ [c])"
  by (simp add: trimEnd_def)

lemma length_trimEnd_le: "length (trimEnd s) \<le> length s"
  using length_dropWhile_le [of is_space "rev s"] by (simp add: trimEnd_def)

lemma trimEnd_fixed_iff: "trimEnd s = s \<longleftrightarrow> s = [] \<or> \<not> is_space (last s)"
proof (cases s rule: rev_cases)
  case Nil
  then show ?thesis by simp
next
  case (snoc ys y)
  have "trimEnd ys \<noteq> ys @ [y]"
    using length_trimEnd_le [of ys] by (auto dest: arg_cong [where f = length])
  with snoc show ?thesis by (simp add: trimEnd_snoc)
qed

lemma trimEnd_idem [simp]: "trimEnd (trimEnd s) = trimEnd s"
  by (induction s rule: rev_induct) (simp_all add: trimEnd_snoc)

lemma set_trimEnd: "set (trimEnd s) \<subseteq> set s"
  unfolding trimEnd_def using set_dropWhileD [of _ is_space "rev s"] by auto

lemma set_trimStart: "set (trimStart s) \<subseteq> set s"
  unfolding trimStart_def using set_dropWhileD [of _ is_space s] by auto

lemma isBlank_trimEnd [simp]: "isBlank (trimEnd s) \<longleftrightarrow> isBlank s"
  by (induction s rule: rev_induct) (auto simp: trimEnd_snoc isBlank_iff)

lemma isBlank_trimStart [simp]: "isBlank (trimStart s) \<longleftrightarrow> isBlank s"
  by (induction s) (auto simp: trimStart_def isBlank_iff)

lemma dropWhile_space_trimEnd: "dropWhile is_space (trimEnd s) = trimEnd (dropWhile is_space s)"
proof (induction s)
  case Nil
  show ?case by simp
next
  case (Cons c s)
  show ?case
  proof (cases "is_space c")
    case True
    show ?thesis
    proof (cases "isBlank s")
      case b: True
      with True have "isBlank (c # s)" by (simp add: isBlank_iff)
      then have "trimEnd (c # s) = []" by (simp add: trimEnd_eq_Nil)
      moreover have "trimEnd (dropWhile is_space s) = []"
        using b isBlank_trimStart [of s] by (simp add: trimEnd_eq_Nil trimStart_def)
      ultimately show ?thesis using True by simp
    next
      case nb: False
      then have "trimEnd (c # s) = c # trimEnd s"
        by (simp add: trimEnd_def isBlank_iff dropWhile_append)
      with True Cons show ?thesis by simp
    qed
  next
    case False
    then have "trimEnd (c # s) = c # trimEnd s"
      by (simp add: trimEnd_def dropWhile_append)
    with False show ?thesis by simp
  qed
qed

lemma trimEnd_trimStart: "trimEnd (trimStart s) = trimStart (trimEnd s)"
  by (simp add: trimStart_def dropWhile_space_trimEnd)

lemma trim_alt: "trim s = trimStart (trimEnd s)"
  by (simp add: trim_def trimEnd_trimStart)

lemma trimStart_idem [simp]: "trimStart (trimStart s) = trimStart s"
  by (simp add: trimStart_def)

section \<open>The line tests\<close>

lemma takeWhile_eq_replicate: "takeWhile (\<lambda>c. c = a) r = replicate (length (takeWhile (\<lambda>c. c = a) r)) a"
  by (rule replicate_length_same [symmetric]) (auto dest: set_takeWhileD)

lemma after_marker_iff: "after_marker t \<longleftrightarrow> (\<exists>c t'. t = c # t' \<and> is_space c)"
  by (cases t) (simp_all add: after_marker_def)

lemma isHeading_ex:
  "isHeading l \<longleftrightarrow>
     (\<exists>n c t. dropWhile is_space l = replicate n (CHR ''#'') @ c # t \<and> 1 \<le> n \<and> n \<le> 6 \<and> is_space c)"
proof
  define r where "r = dropWhile is_space l"
  let ?H = "\<lambda>c. c = CHR ''#''"
  assume "isHeading l"
  then have 1: "1 \<le> length (takeWhile ?H r)" "length (takeWhile ?H r) \<le> 6"
    and 2: "after_marker (dropWhile ?H r)"
    by (simp_all add: isHeading_iff Let_def r_def dropWhile_eq_drop)
  from 2 obtain c t where ct: "dropWhile ?H r = c # t" "is_space c"
    by (auto simp: after_marker_iff)
  have "r = takeWhile ?H r @ dropWhile ?H r" by simp
  then have "r = replicate (length (takeWhile ?H r)) (CHR ''#'') @ c # t"
    using ct(1) takeWhile_eq_replicate [of "CHR ''#''" r] by simp
  with 1 ct(2) show "\<exists>n c t. dropWhile is_space l = replicate n (CHR ''#'') @ c # t \<and> 1 \<le> n \<and> n \<le> 6 \<and> is_space c"
    unfolding r_def by blast
next
  assume "\<exists>n c t. dropWhile is_space l = replicate n (CHR ''#'') @ c # t \<and> 1 \<le> n \<and> n \<le> 6 \<and> is_space c"
  then obtain n c t where r: "dropWhile is_space l = replicate n (CHR ''#'') @ c # t"
    and n: "1 \<le> n" "n \<le> 6" and c: "is_space c" by blast
  from c have "c \<noteq> CHR ''#''" by (auto dest: not_space_marker)
  then have "takeWhile (\<lambda>c. c = CHR ''#'') (replicate n (CHR ''#'') @ c # t) = replicate n (CHR ''#'')"
    by (induction n) simp_all
  with n c show "isHeading l"
    by (simp add: isHeading_iff Let_def r after_marker_def)
qed

lemma isListItem_ex:
  "isListItem l \<longleftrightarrow>
     (\<exists>m c t. dropWhile is_space l = m @ c # t \<and> is_marker m \<and> is_space c)"
proof
  define r where "r = dropWhile is_space l"
  assume "isListItem l"
  then consider
    (bullet) "r \<noteq> []" "hd r \<in> {CHR ''-'', CHR ''*'', CHR ''+''}" "after_marker (tl r)"
  | (number) "takeWhile is_digit r \<noteq> []" "take 1 (dropWhile is_digit r) = ''.''"
      "after_marker (drop 1 (dropWhile is_digit r))"
    by (auto simp: isListItem_iff Let_def r_def dropWhile_eq_drop)
  then show "\<exists>m c t. dropWhile is_space l = m @ c # t \<and> is_marker m \<and> is_space c"
  proof cases
    case bullet
    from bullet(3) obtain c t where "tl r = c # t" "is_space c" by (auto simp: after_marker_iff)
    with bullet(1,2) have "r = [hd r] @ c # t \<and> is_marker [hd r] \<and> is_space c"
      by (cases r) (auto simp: is_marker_def)
    then show ?thesis unfolding r_def by blast
  next
    case number
    from number(3) obtain c t where ct: "drop 1 (dropWhile is_digit r) = c # t" "is_space c"
      by (auto simp: after_marker_iff)
    with number(2) have "dropWhile is_digit r = CHR ''.'' # c # t"
      by (cases "dropWhile is_digit r") simp_all
    moreover have "r = takeWhile is_digit r @ dropWhile is_digit r" by simp
    ultimately have "r = (takeWhile is_digit r @ ''.'') @ c # t" by simp
    moreover have "is_marker (takeWhile is_digit r @ ''.'')"
      unfolding is_marker_def using number(1) by (auto dest: set_takeWhileD)
    ultimately show ?thesis using ct(2) unfolding r_def by blast
  qed
next
  assume "\<exists>m c t. dropWhile is_space l = m @ c # t \<and> is_marker m \<and> is_space c"
  then obtain m c t where r: "dropWhile is_space l = m @ c # t"
    and m: "is_marker m" and c: "is_space c" by blast
  from m consider (bullet) "m = ''-'' \<or> m = ''*'' \<or> m = ''+''"
    | (number) d where "d \<noteq> []" "\<forall>x\<in>set d. is_digit x" "m = d @ ''.''"
    by (auto simp: is_marker_def)
  then show "isListItem l"
  proof cases
    case bullet
    with c show ?thesis by (auto simp: isListItem_iff Let_def r after_marker_def)
  next
    case number
    have "takeWhile is_digit ((d @ ''.'') @ c # t) = d"
      using number(2) by (simp add: takeWhile_append2 is_digit_def)
    with number c show ?thesis by (simp add: isListItem_iff Let_def r after_marker_def)
  qed
qed

lemma marker_not_space: "is_marker m \<Longrightarrow> m \<noteq> [] \<and> \<not> is_space (hd m) \<and> hd m \<noteq> CHR ''#''"
proof -
  assume "is_marker m"
  then consider (bullet) "m = ''-'' \<or> m = ''*'' \<or> m = ''+''"
    | (number) d where "d \<noteq> []" "\<forall>x\<in>set d. is_digit x" "m = d @ ''.''"
    by (auto simp: is_marker_def)
  then show ?thesis
  proof cases
    case bullet
    then show ?thesis by (auto simp: is_space_def)
  next
    case number
    then have "is_digit (hd m)" "m \<noteq> []" by (simp_all add: hd_append)
    moreover have "\<not> is_digit (CHR ''#'')" by (simp add: is_digit_def)
    ultimately show ?thesis using not_space_marker [of "hd m"] by auto
  qed
qed

lemma isBlank_dropWhile: "isBlank l \<longleftrightarrow> dropWhile is_space l = []"
  by (simp add: isBlank_iff)

lemma isHeading_not_blank: "isHeading l \<Longrightarrow> \<not> isBlank l"
  unfolding isHeading_ex isBlank_dropWhile by (elim exE conjE) simp

lemma isListItem_not_blank: "isListItem l \<Longrightarrow> \<not> isBlank l"
  unfolding isListItem_ex isBlank_dropWhile by (elim exE conjE) simp

lemma isHeading_trimStart [simp]: "isHeading (trimStart l) \<longleftrightarrow> isHeading l"
  by (simp add: isHeading_ex trimStart_def)

lemma isListItem_trimStart [simp]: "isListItem (trimStart l) \<longleftrightarrow> isListItem l"
  by (simp add: isListItem_ex trimStart_def)

lemma dropWhile_append_nonempty: "dropWhile P xs \<noteq> [] \<Longrightarrow> dropWhile P (xs @ ys) = dropWhile P xs @ ys"
  by (induction xs) auto

lemma isHeading_append: "isHeading p \<Longrightarrow> isHeading (p @ q)"
proof -
  assume "isHeading p"
  then obtain n c t where r: "dropWhile is_space p = replicate n (CHR ''#'') @ c # t"
    and n: "1 \<le> n" "n \<le> 6" "is_space c" by (auto simp: isHeading_ex)
  from r have "dropWhile is_space (p @ q) = replicate n (CHR ''#'') @ c # (t @ q)"
    by (simp add: dropWhile_append_nonempty)
  with n show ?thesis unfolding isHeading_ex by blast
qed

lemma isListItem_append: "isListItem p \<Longrightarrow> isListItem (p @ q)"
proof -
  assume "isListItem p"
  then obtain m c t where r: "dropWhile is_space p = m @ c # t"
    and m: "is_marker m" "is_space c" by (auto simp: isListItem_ex)
  from r have "dropWhile is_space (p @ q) = m @ c # (t @ q)"
    by (simp add: dropWhile_append_nonempty)
  with m show ?thesis unfolding isListItem_ex by blast
qed

lemma isHeading_trimEnd: "isHeading (trimEnd l) \<Longrightarrow> isHeading l"
  using isHeading_append [of "trimEnd l" "rev (takeWhile is_space (rev l))"] trimEnd_decomp [of l]
  by simp

lemma isListItem_trimEnd: "isListItem (trimEnd l) \<Longrightarrow> isListItem l"
  using isListItem_append [of "trimEnd l" "rev (takeWhile is_space (rev l))"] trimEnd_decomp [of l]
  by simp

lemma isListItem_not_heading: "isListItem l \<Longrightarrow> \<not> isHeading l"
proof
  assume "isListItem l" and "isHeading l"
  then obtain m c t n c' t' where "dropWhile is_space l = m @ c # t" "is_marker m"
    and "dropWhile is_space l = replicate n (CHR ''#'') @ c' # t'" "1 \<le> n"
    by (auto simp: isListItem_ex isHeading_ex)
  then have "m @ c # t = replicate n (CHR ''#'') @ c' # t'" "m \<noteq> []" "hd m \<noteq> CHR ''#''" "n \<noteq> 0"
    using marker_not_space [of m] by simp_all
  then show False by (cases m; cases n) simp_all
qed

section \<open>The loop\<close>

lemma pop_blank_eq: "pop_blank nl = rev (dropWhile isBlank (rev nl))"
proof (induction nl rule: pop_blank.induct)
  case (1 nl)
  show ?case
  proof (cases nl rule: rev_cases)
    case Nil
    then show ?thesis by (simp add: pop_blank.simps [of "[]"])
  next
    case (snoc ys y)
    show ?thesis
    proof (cases "isBlank y")
      case True
      with snoc "1.IH" show ?thesis
        by (simp add: pop_blank.simps [of "ys @ [y]"] trim_Nil_iff)
    next
      case False
      with snoc show ?thesis
        by (simp add: pop_blank.simps [of "ys @ [y]"] trim_Nil_iff)
    qed
  qed
qed

lemma pop_blank_decomp: "\<exists>ys. nl = pop_blank nl @ ys \<and> (\<forall>y\<in>set ys. isBlank y)"
proof -
  have "rev nl = takeWhile isBlank (rev nl) @ dropWhile isBlank (rev nl)" by simp
  then have "rev (rev nl) = rev (takeWhile isBlank (rev nl) @ dropWhile isBlank (rev nl))"
    by (rule arg_cong)
  then have "nl = pop_blank nl @ rev (takeWhile isBlank (rev nl))"
    by (simp add: pop_blank_eq del: takeWhile_dropWhile_id)
  moreover have "\<forall>y\<in>set (rev (takeWhile isBlank (rev nl))). isBlank y"
    by (auto dest: set_takeWhileD)
  ultimately show ?thesis by blast
qed

lemma set_pop_blank: "set (pop_blank nl) \<subseteq> set nl"
  using pop_blank_decomp [of nl] by (metis Un_upper1 set_append)

lemma pop_blank_last: "pop_blank nl \<noteq> [] \<Longrightarrow> \<not> isBlank (last (pop_blank nl))"
  unfolding pop_blank_eq using hd_dropWhile [of isBlank "rev nl"] by (simp add: last_rev)

lemma filter_pop_blank: "filter (\<lambda>l. \<not> isBlank l) (pop_blank nl) = filter (\<lambda>l. \<not> isBlank l) nl"
proof -
  obtain ys where ys: "nl = pop_blank nl @ ys" "\<forall>y\<in>set ys. isBlank y"
    using pop_blank_decomp by blast
  then have "filter (\<lambda>l. \<not> isBlank l) ys = []" by (simp add: filter_empty_conv)
  then have "filter (\<lambda>l. \<not> isBlank l) (pop_blank nl @ ys) = filter (\<lambda>l. \<not> isBlank l) (pop_blank nl)"
    by simp
  with ys(1) show ?thesis by simp
qed

lemma last_nonblank_snoc:
  "last_nonblank (nl @ [e]) = (if isBlank e then last_nonblank nl else Some e)"
  by (simp add: last_nonblank_def)

lemma last_nonblank_pop [simp]: "last_nonblank (pop_blank nl) = last_nonblank nl"
  by (simp add: last_nonblank_def pop_blank_eq)

lemma last_nonblank_last: "nl \<noteq> [] \<Longrightarrow> \<not> isBlank (last nl) \<Longrightarrow> last_nonblank nl = Some (last nl)"
  by (cases nl rule: rev_cases) (simp_all add: last_nonblank_snoc)

lemma line_loop_invariant:
  assumes "I lines nl lmt"
    and "\<And>raw rest nl lmt nl' lmt'.
           I (raw # rest) nl lmt \<Longrightarrow> loop_body raw rest nl lmt = (nl', lmt') \<Longrightarrow> I rest nl' lmt'"
  shows "\<exists>lmt'. I [] (line_loop lines nl lmt) lmt'"
  using assms(1)
proof (induction lines arbitrary: nl lmt)
  case Nil
  then show ?case by auto
next
  case (Cons raw rest)
  obtain nl' lmt' where b: "loop_body raw rest nl lmt = (nl', lmt')" by (cases "loop_body raw rest nl lmt")
  with Cons.prems have "I rest nl' lmt'" by (rule assms(2))
  then have "\<exists>l. I [] (line_loop rest nl' lmt') l" by (rule Cons.IH)
  with b show ?case by simp
qed

text \<open>The shape of one turn: what is appended, and to what.\<close>

lemma loop_body_shape:
  assumes "loop_body raw rest nl lmt = (nl', lmt')"
  obtains
    (heading) "isHeading raw" "lmt' = Some Heading"
      "nl' = (if nl \<noteq> [] \<and> \<not> isBlank (last nl) then nl @ [[]] else nl) @ [trimEnd raw] @
             (if rest \<noteq> [] \<and> \<not> isBlank (hd rest) then [[]] else [])"
  | (list_item) "\<not> isHeading raw" "isListItem raw" "lmt' = Some ListItem"
      "nl' = (if lmt = Some ListItem then pop_blank nl else nl) @ [trimEnd raw]"
  | (blank) "\<not> isHeading raw" "\<not> isListItem raw" "isBlank raw" "lmt' = lmt"
      "nl' = (if nl = [] \<or> \<not> isBlank (last nl) then nl @ [[]] else nl)"
  | (other) "\<not> isHeading raw" "\<not> isListItem raw" "\<not> isBlank raw" "lmt' = Some Other"
      "nl' = (if lmt = Some ListItem \<and> nl \<noteq> [] \<and> \<not> isBlank (last nl) then nl @ [[]] else nl) @ [trimEnd raw]"
proof -
  consider "isHeading raw" | "\<not> isHeading raw" "isListItem raw"
    | "\<not> isHeading raw" "\<not> isListItem raw" "isBlank raw"
    | "\<not> isHeading raw" "\<not> isListItem raw" "\<not> isBlank raw" by blast
  then show thesis
  proof cases
    case 1
    with assms show thesis
      by (intro heading) (auto simp: loop_body_def Let_def trim_Nil_iff split: if_splits)
  next
    case 2
    with assms show thesis
      by (intro list_item) (auto simp: loop_body_def Let_def trim_Nil_iff split: if_splits)
  next
    case 3
    with assms show thesis
      by (intro blank) (auto simp: loop_body_def Let_def trim_Nil_iff split: if_splits)
  next
    case 4
    with assms show thesis
      by (intro other) (auto simp: loop_body_def Let_def trim_Nil_iff split: if_splits)
  qed
qed


lemma successively_snoc:
  "successively P (xs @ [x]) \<longleftrightarrow> successively P xs \<and> (xs = [] \<or> P (last xs) x)"
  by (simp add: successively_append_iff)

lemma successively_prefix: "successively P (xs @ ys) \<Longrightarrow> successively P xs"
  by (simp add: successively_append_iff)

lemma successively_pop_blank: "successively P nl \<Longrightarrow> successively P (pop_blank nl)"
  using pop_blank_decomp [of nl] successively_prefix [of P "pop_blank nl"] by metis

lemma not_blank_trimEnd: "\<not> isBlank raw \<Longrightarrow> \<not> isBlank (trimEnd raw)"
  by simp

subsection \<open>Every entry of \<open>newLines\<close> is empty or a line without its trailing white space\<close>

lemma loop_body_entries:
  assumes "loop_body raw rest nl lmt = (nl', lmt')"
  shows "set nl' \<subseteq> set nl \<union> {[], trimEnd raw}"
  using assms
proof (cases rule: loop_body_shape)
  case list_item
  then show ?thesis using set_pop_blank [of nl] by auto
qed auto

lemma line_loop_entries:
  "set (line_loop lines nl lmt) \<subseteq> set nl \<union> {[]} \<union> trimEnd ` set lines"
proof (induction lines arbitrary: nl lmt)
  case Nil
  show ?case by auto
next
  case (Cons raw rest)
  obtain nl' lmt' where b: "loop_body raw rest nl lmt = (nl', lmt')" by (cases "loop_body raw rest nl lmt")
  from Cons.IH [of nl' lmt'] loop_body_entries [OF b] b show ?case by auto
qed

subsection \<open>No two blank entries in a row\<close>

lemma loop_body_not_both_blank:
  assumes "loop_body raw rest nl lmt = (nl', lmt')" and "successively not_both_blank nl"
  shows "successively not_both_blank nl'"
  using assms(1)
proof (cases rule: loop_body_shape)
  case heading
  then have "\<not> isBlank (trimEnd raw)" by (simp add: isHeading_not_blank)
  with heading(3) assms(2) show ?thesis
    by (auto simp: successively_snoc successively_append_iff not_both_blank_def)
next
  case list_item
  then have "\<not> isBlank (trimEnd raw)" by (simp add: isListItem_not_blank)
  with list_item(4) assms(2) show ?thesis
    by (auto simp: successively_snoc not_both_blank_def intro: successively_pop_blank)
next
  case blank
  with assms(2) show ?thesis
    by (auto simp: successively_snoc not_both_blank_def)
next
  case other
  then have "\<not> isBlank (trimEnd raw)" by simp
  with other(5) assms(2) show ?thesis
    by (auto simp: successively_snoc not_both_blank_def)
qed

subsection \<open>\<open>lastMeaningfulType\<close> is the type of the last entry that is not blank\<close>

lemma loop_body_tracks:
  assumes "loop_body raw rest nl lmt = (nl', lmt')" and "tracks nl lmt"
  shows "tracks nl' lmt'"
  using assms(1)
proof (cases rule: loop_body_shape)
  case heading
  then have "\<not> isBlank (trimEnd raw)" by (simp add: isHeading_not_blank)
  with heading(3) have "last_nonblank nl' = Some (trimEnd raw)"
    by (auto simp: last_nonblank_def)
  moreover have "\<not> isListItem (trimEnd raw)"
    using heading(1) isListItem_trimEnd isListItem_not_heading by blast
  ultimately show ?thesis using heading(2) by (simp add: tracks_def)
next
  case list_item
  then have "\<not> isBlank (trimEnd raw)" by (simp add: isListItem_not_blank)
  with list_item(4) have "last_nonblank nl' = Some (trimEnd raw)"
    by (auto simp: last_nonblank_snoc)
  moreover have "\<not> isHeading (trimEnd raw)"
    using list_item(1) isHeading_trimEnd by blast
  ultimately show ?thesis using list_item(3) by (simp add: tracks_def)
next
  case blank
  then have "last_nonblank nl' = last_nonblank nl"
    by (auto simp: last_nonblank_snoc)
  with blank(4) assms(2) show ?thesis by (simp add: tracks_def)
next
  case other
  then have "\<not> isBlank (trimEnd raw)" by simp
  with other(5) have "last_nonblank nl' = Some (trimEnd raw)"
    by (auto simp: last_nonblank_snoc)
  moreover have "\<not> isHeading (trimEnd raw)" "\<not> isListItem (trimEnd raw)"
    using other(1,2) isHeading_trimEnd isListItem_trimEnd by blast+
  ultimately show ?thesis by (simp add: tracks_def)
qed

subsection \<open>A blank entry on both sides of every heading\<close>

lemma heading_spaced_blank [simp]: "isBlank b \<Longrightarrow> heading_spaced a b \<longleftrightarrow> \<not> isHeading b \<or> isBlank a"
  "isBlank a \<Longrightarrow> heading_spaced a b \<longleftrightarrow> \<not> isHeading a \<or> isBlank b"
  by (auto simp: heading_spaced_def dest: isHeading_not_blank)

lemma not_heading_Nil [simp]: "\<not> isHeading []" "\<not> isListItem []"
  using isHeading_not_blank [of "[]"] isListItem_not_blank [of "[]"] by auto

lemma loop_body_heading_inv:
  assumes b: "loop_body raw rest nl lmt = (nl', lmt')" and inv: "heading_inv (raw # rest) nl lmt"
  shows "heading_inv rest nl' lmt'"
proof -
  from inv have tr: "tracks nl lmt" and su: "successively heading_spaced nl"
    and la: "nl \<noteq> [] \<Longrightarrow> isHeading (last nl) \<Longrightarrow> isBlank raw"
    by (auto simp: heading_inv_def)
  have tr': "tracks nl' lmt'" using b tr by (rule loop_body_tracks)
  have "successively heading_spaced nl' \<and> (nl' \<noteq> [] \<and> isHeading (last nl') \<longrightarrow> rest = [] \<or> isBlank (hd rest))"
    using b
  proof (cases rule: loop_body_shape)
    case heading
    then have nb: "\<not> isBlank raw" by (simp add: isHeading_not_blank)
    with la have nh: "nl \<noteq> [] \<Longrightarrow> \<not> isHeading (last nl)" by blast
    define nl1 where "nl1 = (if nl \<noteq> [] \<and> \<not> isBlank (last nl) then nl @ [[]] else nl)"
    have 1: "successively heading_spaced nl1" "nl1 = [] \<or> isBlank (last nl1)"
      using su nh by (auto simp: nl1_def successively_snoc)
    then have 2: "successively heading_spaced (nl1 @ [trimEnd raw])"
      by (auto simp: successively_snoc dest: isHeading_not_blank)
    show ?thesis
    proof (cases "rest \<noteq> [] \<and> \<not> isBlank (hd rest)")
      case True
      with heading(3) have "nl' = (nl1 @ [trimEnd raw]) @ [[]]" by (simp add: nl1_def)
      with 2 show ?thesis by (simp add: successively_snoc del: append_assoc)
    next
      case False
      with heading(3) have "nl' = nl1 @ [trimEnd raw]" by (auto simp: nl1_def)
      with 2 False show ?thesis by auto
    qed
  next
    case list_item
    then have nb: "\<not> isBlank raw" by (simp add: isListItem_not_blank)
    have e: "\<not> isHeading (trimEnd raw)" using list_item(1) isHeading_trimEnd by blast
    define nl1 where "nl1 = (if lmt = Some ListItem then pop_blank nl else nl)"
    have 1: "successively heading_spaced nl1"
      using su by (simp add: nl1_def successively_pop_blank)
    have "\<not> isHeading (last nl1)" if ne: "nl1 \<noteq> []"
    proof (cases "lmt = Some ListItem")
      case True
      with ne have "last_nonblank nl = Some (last nl1)"
        using last_nonblank_last [of "pop_blank nl"] pop_blank_last [of nl] by (simp add: nl1_def)
      with tr True show ?thesis by (auto simp: tracks_def)
    next
      case False
      with ne la nb show ?thesis by (auto simp: nl1_def)
    qed
    with 1 e list_item(4) show ?thesis
      by (auto simp: successively_snoc heading_spaced_def nl1_def [symmetric])
  next
    case blank
    with su show ?thesis
      by (auto simp: successively_snoc dest: isHeading_not_blank)
  next
    case other
    with la have nh: "nl \<noteq> [] \<Longrightarrow> \<not> isHeading (last nl)" by blast
    have e: "\<not> isHeading (trimEnd raw)" using other(1) isHeading_trimEnd by blast
    from other(5) su nh e show ?thesis
      by (auto simp: successively_snoc heading_spaced_def)
  qed
  with tr' show ?thesis by (simp add: heading_inv_def)
qed


subsection \<open>No blank entry between two list items\<close>

lemma gap_free_Nil [simp]: "gap_free []"
  by (simp add: gap_free_def)

lemma gap_free_prefix: "gap_free (xs @ ys) \<Longrightarrow> gap_free xs"
  unfolding gap_free_def
proof (intro allI impI, elim conjE)
  fix pre a bs b post
  assume g: "\<forall>pre a bs b post. xs @ ys = pre @ a # bs @ b # post \<and> isListItem a \<and> isListItem b \<and>
      (\<forall>x\<in>set bs. isBlank x) \<longrightarrow> bs = []"
    and xs: "xs = pre @ a # bs @ b # post" and ab: "isListItem a" "isListItem b" "\<forall>x\<in>set bs. isBlank x"
  from xs have "xs @ ys = pre @ a # bs @ b # (post @ ys)" by simp
  with g ab show "bs = []" by blast
qed

lemma gap_free_snoc:
  assumes "gap_free nl"
    and "\<And>pre a bs. isListItem x \<Longrightarrow> nl = pre @ a # bs \<Longrightarrow> isListItem a \<Longrightarrow>
           \<forall>y\<in>set bs. isBlank y \<Longrightarrow> bs = []"
  shows "gap_free (nl @ [x])"
  unfolding gap_free_def
proof (intro allI impI, elim conjE)
  fix pre a bs b post
  assume eq: "nl @ [x] = pre @ a # bs @ b # post"
    and ab: "isListItem a" "isListItem b" "\<forall>y\<in>set bs. isBlank y"
  show "bs = []"
  proof (cases post rule: rev_cases)
    case Nil
    with eq have "nl @ [x] = (pre @ a # bs) @ [b]" by simp
    then have "nl = pre @ a # bs" "x = b" by (simp_all only: append1_eq_conv)
    with ab assms(2) show ?thesis by blast
  next
    case (snoc post' y)
    with eq have "nl @ [x] = (pre @ a # bs @ b # post') @ [y]" by simp
    then have "nl = pre @ a # bs @ b # post'" by (simp only: append1_eq_conv)
    with assms(1) ab show ?thesis unfolding gap_free_def by blast
  qed
qed

lemma gap_free_snoc_other: "gap_free nl \<Longrightarrow> \<not> isListItem x \<Longrightarrow> gap_free (nl @ [x])"
  by (rule gap_free_snoc) auto

lemma gap_free_pop_blank: "gap_free nl \<Longrightarrow> gap_free (pop_blank nl)"
  using pop_blank_decomp [of nl] gap_free_prefix [of "pop_blank nl"] by metis

lemma last_nonblank_decomp:
  "\<forall>y\<in>set bs. isBlank y \<Longrightarrow> \<not> isBlank a \<Longrightarrow> last_nonblank (pre @ a # bs) = Some a"
proof -
  assume bl: "\<forall>y\<in>set bs. isBlank y" and a: "\<not> isBlank a"
  from bl have "dropWhile isBlank (rev bs @ a # rev pre) = dropWhile isBlank (a # rev pre)"
    by (intro dropWhile_append2) simp
  with a show ?thesis by (simp add: last_nonblank_def)
qed

lemma loop_body_gap_free:
  assumes b: "loop_body raw rest nl lmt = (nl', lmt')" and tr: "tracks nl lmt" and g: "gap_free nl"
  shows "gap_free nl'"
  using b
proof (cases rule: loop_body_shape)
  case heading
  have e: "\<not> isListItem (trimEnd raw)"
    using heading(1) isListItem_trimEnd isListItem_not_heading by blast
  define nl1 where "nl1 = (if nl \<noteq> [] \<and> \<not> isBlank (last nl) then nl @ [[]] else nl)"
  have "gap_free nl1" using g by (simp add: nl1_def gap_free_snoc_other)
  then have 2: "gap_free (nl1 @ [trimEnd raw])" using e by (rule gap_free_snoc_other)
  then have "gap_free ((nl1 @ [trimEnd raw]) @ [[]])" by (rule gap_free_snoc_other) simp
  with 2 heading(3) show ?thesis by (auto simp: nl1_def)
next
  case list_item
  show ?thesis
  proof (cases "lmt = Some ListItem")
    case True
    have "gap_free (pop_blank nl @ [trimEnd raw])"
    proof (rule gap_free_snoc)
      show "gap_free (pop_blank nl)" using g by (rule gap_free_pop_blank)
    next
      fix pre a bs
      assume p: "pop_blank nl = pre @ a # bs" and bl: "\<forall>y\<in>set bs. isBlank y"
      show "bs = []"
      proof (rule ccontr)
        assume "bs \<noteq> []"
        with p have "last (pop_blank nl) = last bs" "last bs \<in> set bs" by simp_all
        with bl have "isBlank (last (pop_blank nl))" by simp
        with p pop_blank_last [of nl] show False by simp
      qed
    qed
    with True list_item(4) show ?thesis by simp
  next
    case False
    have "gap_free (nl @ [trimEnd raw])"
    proof (rule gap_free_snoc)
      show "gap_free nl" by (rule g)
    next
      fix pre a bs
      assume p: "nl = pre @ a # bs" and a: "isListItem a" and bl: "\<forall>y\<in>set bs. isBlank y"
      from a have "\<not> isBlank a" by (rule isListItem_not_blank)
      with bl p have "last_nonblank nl = Some a" by (simp add: last_nonblank_decomp)
      with tr a have "lmt = Some ListItem" by (simp add: tracks_def)
      with False show "bs = []" by simp
    qed
    with False list_item(4) show ?thesis by simp
  qed
next
  case blank
  have "gap_free (nl @ [[]])" using g by (rule gap_free_snoc_other) simp
  with g blank(5) show ?thesis by auto
next
  case other
  have e: "\<not> isListItem (trimEnd raw)" using other(2) isListItem_trimEnd by blast
  define nl1 where "nl1 = (if lmt = Some ListItem \<and> nl \<noteq> [] \<and> \<not> isBlank (last nl) then nl @ [[]] else nl)"
  have "gap_free nl1" using g by (simp add: nl1_def gap_free_snoc_other)
  then have "gap_free (nl1 @ [trimEnd raw])" using e by (rule gap_free_snoc_other)
  with other(5) show ?thesis by (simp add: nl1_def)
qed

subsection \<open>The lines that are not blank\<close>

lemma loop_body_filter:
  assumes "loop_body raw rest nl lmt = (nl', lmt')"
  shows "filter (\<lambda>l. \<not> isBlank l) nl' =
         filter (\<lambda>l. \<not> isBlank l) nl @ (if isBlank raw then [] else [trimEnd raw])"
  using assms
proof (cases rule: loop_body_shape)
  case heading
  then have "\<not> isBlank raw" by (simp add: isHeading_not_blank)
  with heading(3) show ?thesis by simp
next
  case list_item
  then have "\<not> isBlank raw" by (simp add: isListItem_not_blank)
  with list_item(4) show ?thesis by (simp add: filter_pop_blank)
next
  case blank
  then show ?thesis by simp
next
  case other
  then show ?thesis by simp
qed

lemma line_loop_filter:
  "filter (\<lambda>l. \<not> isBlank l) (line_loop lines nl lmt) =
   filter (\<lambda>l. \<not> isBlank l) nl @ map trimEnd (filter (\<lambda>l. \<not> isBlank l) lines)"
proof (induction lines arbitrary: nl lmt)
  case Nil
  show ?case by simp
next
  case (Cons raw rest)
  obtain nl' lmt' where b: "loop_body raw rest nl lmt = (nl', lmt')" by (cases "loop_body raw rest nl lmt")
  from Cons.IH [of nl' lmt'] loop_body_filter [OF b] b show ?case by simp
qed

subsection \<open>The result of the loop\<close>

lemma line_loop_inv:
  "successively not_both_blank (line_loop lines [] None) \<and>
   successively heading_spaced (line_loop lines [] None) \<and>
   gap_free (line_loop lines [] None)"
proof -
  have "\<exists>lmt'. loop_inv [] (line_loop lines [] None) lmt'"
  proof (rule line_loop_invariant)
    show "loop_inv lines [] None"
      by (simp add: loop_inv_def heading_inv_def tracks_def last_nonblank_def)
  next
    fix raw rest nl lmt nl' lmt'
    assume "loop_inv (raw # rest) nl lmt" and "loop_body raw rest nl lmt = (nl', lmt')"
    then show "loop_inv rest nl' lmt'"
      unfolding loop_inv_def
      using loop_body_not_both_blank loop_body_heading_inv loop_body_gap_free
      by (meson heading_inv_def)
  qed
  then show ?thesis by (auto simp: loop_inv_def heading_inv_def)
qed

section \<open>Global replacement\<close>

lemma replace_fn_Nil: "rx [] = None \<Longrightarrow> replace_fn rx f [] = []"
  by (simp add: replace_fn_def)

lemma replace_fn_None: "rx (c # cs) = None \<Longrightarrow> replace_fn rx f (c # cs) = c # replace_fn rx f cs"
  by (simp add: replace_fn_def split_def)

lemma replace_fn_Some:
  "rx (c # cs) = Some (m, n) \<Longrightarrow> 0 < n \<Longrightarrow>
   replace_fn rx f (c # cs) = f (take n (c # cs)) m @ replace_fn rx f (drop n (c # cs))"
  by (cases n) (simp_all add: replace_fn_def split_def)

lemma star_greedy_first: "k (dropWhile P s) = Some r \<Longrightarrow> star_greedy P s k = Some r"
  by (induction s) (auto simp: orelse_def)

section \<open>The post-pass\<close>

lemma lead_lf_simps [simp]:
  "lead_lf [] = 0" "lead_lf (LF # s) = Suc (lead_lf s)" "c \<noteq> LF \<Longrightarrow> lead_lf (c # s) = 0"
  by (simp_all add: lead_lf_def)

lemma newlines_re_eq:
  "newlines_re s = (if 3 \<le> lead_lf s then Some ((), lead_lf s) else None)"
proof -
  have star: "star_greedy (\<lambda>c. c = LF) s3 (\<lambda>s4. Some ((), n - length s4)) =
              Some ((), n - length (dropWhile (\<lambda>c. c = LF) s3))" for s3 n
    by (rule star_greedy_first) simp
  have len: "length (dropWhile (\<lambda>c. c = LF) s3) = length s3 - lead_lf s3" for s3
    by (simp add: lead_lf_def dropWhile_eq_drop)
  have le: "lead_lf s3 \<le> length s3" for s3
    by (simp add: lead_lf_def length_takeWhile_le)
  show ?thesis
  proof (cases s)
    case Nil
    then show ?thesis by (simp add: newlines_re_def cls_def)
  next
    case s1: (Cons a s1)
    show ?thesis
    proof (cases s1)
      case Nil
      with s1 show ?thesis by (cases "a = LF") (simp_all add: newlines_re_def cls_def)
    next
      case s2: (Cons b s2)
      show ?thesis
      proof (cases s2)
        case Nil
        with s1 s2 show ?thesis
          by (cases "a = LF"; cases "b = LF") (simp_all add: newlines_re_def cls_def)
      next
        case (Cons c s3)
        with s1 s2 le [of s3] show ?thesis
          by (cases "a = LF"; cases "b = LF"; cases "c = LF")
             (simp_all add: newlines_re_def cls_def star len)
      qed
    qed
  qed
qed

lemma collapse_Nil [simp]: "collapse [] = []"
  by (simp add: collapse_def replace_fn_Nil newlines_re_eq)

lemma collapse_Cons:
  "collapse (c # cs) =
     (if 3 \<le> lead_lf (c # cs) then LF # LF # collapse (drop (lead_lf (c # cs)) (c # cs))
      else c # collapse cs)"
  by (simp add: collapse_def replace_fn_None replace_fn_Some newlines_re_eq)

lemma lead_lf_drop [simp]: "lead_lf (drop (lead_lf s) s) = 0"
  by (induction s) (auto simp: lead_lf_def)

lemma lead_lf_ge3: "3 \<le> lead_lf s \<Longrightarrow> \<exists>t. s = LF # LF # LF # t"
  by (cases s; cases "tl s"; cases "tl (tl s)") (auto simp: lead_lf_def split: if_splits)

lemma lf_run_ok_collapse: "k + min 2 (lead_lf s) \<le> 2 \<Longrightarrow> lf_run_ok k (collapse s)"
proof (induction s arbitrary: k rule: length_induct)
  case (1 s)
  show ?case
  proof (cases s)
    case Nil
    then show ?thesis by simp
  next
    case (Cons c cs)
    show ?thesis
    proof (cases "3 \<le> lead_lf s")
      case True
      with "1.prems" have k: "k = 0" by simp
      from True have "lead_lf s \<noteq> 0" by simp
      then have "length (drop (lead_lf s) s) < length s" using Cons by simp
      then have "lf_run_ok 2 (collapse (drop (lead_lf s) s))"
        using "1.IH" by simp
      with True Cons k show ?thesis by (simp add: collapse_Cons numeral_2_eq_2)
    next
      case False
      show ?thesis
      proof (cases "c = LF")
        case lf: True
        with Cons "1.prems" False have "Suc k + min 2 (lead_lf cs) \<le> 2" "k < 2"
          by (auto simp: min_def split: if_splits)
        with "1.IH" Cons lf False show ?thesis by (simp add: collapse_Cons)
      next
        case nlf: False
        have "0 + min 2 (lead_lf cs) \<le> 2" by simp
        with "1.IH" Cons have "lf_run_ok 0 (collapse cs)" by simp
        with Cons nlf show ?thesis by (simp add: collapse_Cons)
      qed
    qed
  qed
qed

lemma lf_run_ok_three: "\<not> lf_run_ok k (pre @ LF # LF # LF # post)"
  by (induction pre arbitrary: k) auto

lemma collapse_id: "lf_run_ok k s \<Longrightarrow> collapse s = s"
proof (induction s arbitrary: k)
  case Nil
  show ?case by simp
next
  case (Cons c cs)
  have "\<not> 3 \<le> lead_lf (c # cs)"
  proof
    assume "3 \<le> lead_lf (c # cs)"
    then obtain t where "c # cs = [] @ LF # LF # LF # t" using lead_lf_ge3 by fastforce
    with Cons.prems lf_run_ok_three [of k "[]" t] show False by simp
  qed
  moreover from Cons.prems have "\<exists>k'. lf_run_ok k' cs" by (auto split: if_splits)
  ultimately show ?case using Cons.IH by (auto simp: collapse_Cons)
qed

lemma finish_eq: "finish newLines = trim (collapse (join_lines newLines))"
  by (simp add: finish_def collapse_def)


lemma trim_decomp: "\<exists>w1 w2. s = w1 @ trim s @ w2"
proof -
  have "s = takeWhile is_space s @ trimStart s" by (simp add: trimStart_def)
  moreover have "trimStart s = trim s @ rev (takeWhile is_space (rev (trimStart s)))"
    unfolding trim_def by (rule trimEnd_decomp)
  ultimately show ?thesis by metis
qed

lemma trim_ends: "trim s = [] \<or> \<not> is_space (hd (trim s)) \<and> \<not> is_space (last (trim s))"
proof (cases "trim s = []")
  case True
  then show ?thesis by simp
next
  case False
  have "trimEnd (trim s) = trim s" by (simp add: trim_def)
  with False have "\<not> is_space (last (trim s))" by (simp add: trimEnd_fixed_iff)
  moreover have "\<not> is_space (hd (trim s))"
    using False hd_dropWhile [of is_space "trimEnd s"] by (simp add: trim_alt trimStart_def)
  ultimately show ?thesis by simp
qed

lemma join_lines_Cons: "join_lines (l # ls) = l @ (if ls = [] then [] else LF # join_lines ls)"
  by (cases ls) simp_all

lemma join_lines_snoc: "join_lines (ls @ [l]) = (if ls = [] then l else join_lines ls @ LF # l)"
  by (induction ls rule: join_lines.induct) simp_all

lemma clean_entries_simps [simp]:
  "clean_entries []"
  "clean_entries (l # ls) \<longleftrightarrow> LF \<notin> set l \<and> trimEnd l = l \<and> clean_entries ls"
  "clean_entries (xs @ ys) \<longleftrightarrow> clean_entries xs \<and> clean_entries ys"
  by (auto simp: clean_entries_def)

lemma fixed_blank: "trimEnd e = e \<Longrightarrow> isBlank e \<Longrightarrow> e = []"
  using trimEnd_eq_Nil [of e] by simp

lemma lf_run_ok_append:
  "LF \<notin> set l \<Longrightarrow> lf_run_ok k (l @ s) = (if l = [] then lf_run_ok k s else lf_run_ok 0 s)"
  by (induction l arbitrary: k) auto

lemma lf_run_ok_join:
  "clean_entries nl \<Longrightarrow> successively not_both_blank nl \<Longrightarrow> (nl \<noteq> [] \<and> hd nl \<noteq> []) \<or> k \<le> 1 \<Longrightarrow>
   lf_run_ok k (join_lines nl)"
proof (induction nl arbitrary: k rule: join_lines.induct)
  case 1
  show ?case by simp
next
  case (2 l)
  then show ?case using lf_run_ok_append [of l k "[]"] by simp
next
  case (3 l l' ls)
  from "3.prems" have c: "clean_entries (l' # ls)" and su: "successively not_both_blank (l' # ls)"
    and nb: "not_both_blank l l'" and l: "LF \<notin> set l" by simp_all
  show ?case
  proof (cases "l = []")
    case True
    with nb have "\<not> isBlank l'" by (simp add: not_both_blank_def)
    then have "l' \<noteq> []" by auto
    then have "lf_run_ok (Suc k) (join_lines (l' # ls))" using "3.IH" c su by simp
    moreover from True "3.prems"(3) have "k < 2" by simp
    ultimately show ?thesis using True by simp
  next
    case False
    have "lf_run_ok 1 (join_lines (l' # ls))" using "3.IH" c su by simp
    with False l show ?thesis by (simp add: lf_run_ok_append)
  qed
qed

lemma trimStart_append_nonblank: "\<not> isBlank l \<Longrightarrow> trimStart (l @ s) = trimStart l @ s"
  by (simp add: trimStart_def isBlank_dropWhile dropWhile_append_nonempty)

lemma trimStart_LF [simp]: "trimStart (LF # s) = trimStart s"
  by (simp add: trimStart_def is_space_def)

lemma trimStart_join:
  "\<forall>e\<in>set nl. isBlank e \<longrightarrow> e = [] \<Longrightarrow>
   trimStart (join_lines nl) =
     (case dropWhile isBlank nl of [] \<Rightarrow> [] | e # r \<Rightarrow> join_lines (trimStart e # r))"
proof (induction nl)
  case Nil
  show ?case by simp
next
  case (Cons l ls)
  show ?case
  proof (cases "isBlank l")
    case True
    with Cons.prems have "l = []" by simp
    with Cons show ?thesis by (cases ls) simp_all
  next
    case False
    then show ?thesis by (simp add: join_lines_Cons trimStart_append_nonblank)
  qed
qed

lemma trimEnd_LF [simp]: "trimEnd (s @ [LF]) = trimEnd s"
  by (simp add: trimEnd_snoc is_space_def)

lemma trimEnd_join:
  "\<forall>e\<in>set nl. trimEnd e = e \<Longrightarrow>
   trimEnd (join_lines nl) = join_lines (rev (dropWhile isBlank (rev nl)))"
proof (induction nl rule: rev_induct)
  case Nil
  show ?case by simp
next
  case (snoc l ls)
  then have IH: "trimEnd (join_lines ls) = join_lines (rev (dropWhile isBlank (rev ls)))"
    and l: "trimEnd l = l" by simp_all
  show ?case
  proof (cases "isBlank l")
    case True
    with l have "l = []" by (rule fixed_blank)
    with IH True show ?thesis
      using trimEnd_LF [of "join_lines ls"] by (simp add: join_lines_snoc)
  next
    case False
    with l have "l \<noteq> []" "\<not> is_space (last l)" by (auto simp: trimEnd_fixed_iff)
    then have "trimEnd (join_lines ls @ LF # l) = join_lines ls @ LF # l"
      by (simp add: trimEnd_fixed_iff)
    with False l show ?thesis by (simp add: join_lines_snoc)
  qed
qed

lemma dropWhile_fixed: "\<forall>e\<in>set nl. trimEnd e = e \<Longrightarrow> \<forall>e\<in>set (rev (dropWhile isBlank (rev nl))). isBlank e \<longrightarrow> e = []"
  by (auto dest!: set_dropWhileD intro: fixed_blank)

lemma trim_join:
  assumes "\<forall>e\<in>set nl. trimEnd e = e"
  shows "trim (join_lines nl) = join_lines (out_lines nl)"
proof -
  have "trim (join_lines nl) = trimStart (join_lines (rev (dropWhile isBlank (rev nl))))"
    using assms by (simp add: trim_alt trimEnd_join)
  also have "\<dots> = (case dropWhile isBlank (rev (dropWhile isBlank (rev nl))) of [] \<Rightarrow> []
                    | e # r \<Rightarrow> join_lines (trimStart e # r))"
    using dropWhile_fixed [OF assms] by (rule trimStart_join)
  also have "\<dots> = join_lines (out_lines nl)"
    by (simp add: out_lines_def strip_blank_def list.case_distrib [of join_lines] cong: list.case_cong)
  finally show ?thesis .
qed

lemma split_lines_plain: "LF \<notin> set l \<Longrightarrow> split_lines l = [l]"
  by (induction l) (auto dest: list.set_sel(1))

lemma split_lines_append:
  "LF \<notin> set l \<Longrightarrow> l = [] \<or> last l \<noteq> CR \<Longrightarrow> split_lines (l @ LF # s) = l # split_lines s"
proof (induction l)
  case Nil
  show ?case by simp
next
  case (Cons c l)
  show ?case
  proof (cases "l = []")
    case True
    with Cons.prems show ?thesis by simp
  next
    case False
    with Cons show ?thesis by (cases l) auto
  qed
qed

lemma split_lines_join:
  "ls \<noteq> [] \<Longrightarrow> \<forall>l\<in>set ls. LF \<notin> set l \<and> (l = [] \<or> last l \<noteq> CR) \<Longrightarrow> split_lines (join_lines ls) = ls"
proof (induction ls rule: join_lines.induct)
  case 1
  then show ?case by simp
next
  case (2 l)
  then show ?case by (simp add: split_lines_plain)
next
  case (3 l l' ls)
  then show ?case by (simp add: split_lines_append)
qed

lemma split_lines_no_LF: "l \<in> set (split_lines s) \<Longrightarrow> LF \<notin> set l"
  by (induction s arbitrary: l rule: split_lines.induct) (auto split: if_splits list.splits)



lemma strip_blank_pop: "strip_blank ls = dropWhile isBlank (pop_blank ls)"
  by (simp add: strip_blank_def pop_blank_eq)

lemma strip_blank_decomp: "\<exists>xs ys. ls = xs @ strip_blank ls @ ys"
proof -
  obtain ys where "ls = pop_blank ls @ ys" using pop_blank_decomp by blast
  moreover have "pop_blank ls = takeWhile isBlank (pop_blank ls) @ strip_blank ls"
    by (simp add: strip_blank_pop)
  ultimately show ?thesis by (metis append.assoc)
qed

lemma strip_blank_hd: "strip_blank ls = e # r \<Longrightarrow> \<not> isBlank e"
  unfolding strip_blank_def using hd_dropWhile [of isBlank "rev (dropWhile isBlank (rev ls))"] by auto

lemma clean_entries_loop: "clean_entries (line_loop (split_lines t) [] None)"
proof -
  have "LF \<notin> set e \<and> trimEnd e = e" if "e \<in> set (line_loop (split_lines t) [] None)" for e
  proof -
    from that line_loop_entries [of "split_lines t" "[]" None]
    consider "e = []" | l where "l \<in> set (split_lines t)" "e = trimEnd l" by auto
    then show ?thesis
    proof cases
      case 1
      then show ?thesis by simp
    next
      case 2
      then show ?thesis using split_lines_no_LF [of l t] set_trimEnd [of l] by auto
    qed
  qed
  then show ?thesis by (simp add: clean_entries_def)
qed

lemma clean_entries_out: "clean_entries ls \<Longrightarrow> clean_entries (out_lines ls)"
proof -
  assume c: "clean_entries ls"
  obtain xs ys where "ls = xs @ strip_blank ls @ ys" using strip_blank_decomp by blast
  with c have s: "clean_entries (strip_blank ls)" by (metis clean_entries_simps(3))
  show ?thesis
  proof (cases "strip_blank ls")
    case Nil
    then show ?thesis by (simp add: out_lines_def)
  next
    case (Cons e r)
    with s have "LF \<notin> set (trimStart e)" "trimEnd (trimStart e) = trimStart e" "clean_entries r"
      using set_trimStart [of e] by (auto simp: trimEnd_trimStart)
    with Cons show ?thesis by (simp add: out_lines_def)
  qed
qed

lemma clean_entry_last: "clean_entries ls \<Longrightarrow> l \<in> set ls \<Longrightarrow> LF \<notin> set l \<and> (l = [] \<or> last l \<noteq> CR)"
  by (auto simp: clean_entries_def trimEnd_fixed_iff is_space_def)

text \<open>The result of the second half of the function, and its lines.\<close>

lemma normalize_lines_eq:
  "normalize_lines t = join_lines (out_lines (line_loop (split_lines t) [] None))"
proof -
  let ?nl = "line_loop (split_lines t) [] None"
  have c: "clean_entries ?nl" by (rule clean_entries_loop)
  moreover have "successively not_both_blank ?nl" using line_loop_inv by blast
  ultimately have "lf_run_ok 0 (join_lines ?nl)" by (rule lf_run_ok_join) simp
  then have "collapse (join_lines ?nl) = join_lines ?nl" by (rule collapse_id)
  moreover have "trim (join_lines ?nl) = join_lines (out_lines ?nl)"
    using c by (intro trim_join) (simp add: clean_entries_def)
  ultimately show ?thesis by (simp add: normalize_lines_def finish_eq)
qed

lemma split_lines_normalize:
  "split_lines (normalize_lines t) =
     (if out_lines (line_loop (split_lines t) [] None) = [] then [[]]
      else out_lines (line_loop (split_lines t) [] None))"
proof -
  let ?out = "out_lines (line_loop (split_lines t) [] None)"
  have "clean_entries ?out" using clean_entries_loop by (rule clean_entries_out)
  then have "\<forall>l\<in>set ?out. LF \<notin> set l \<and> (l = [] \<or> last l \<noteq> CR)"
    using clean_entry_last by blast
  then have "?out \<noteq> [] \<Longrightarrow> split_lines (join_lines ?out) = ?out"
    by (intro split_lines_join)
  then show ?thesis by (auto simp: normalize_lines_eq)
qed

lemma modifyContentProtected_eq:
  "modifyContentProtected content = normalize_lines (rewrite_inline (rewrite_display content))"
  by (simp add: modifyContentProtected_def)

subsection \<open>Properties of the lines of the result\<close>

lemma filter_strip_blank:
  "filter (\<lambda>l. \<not> isBlank l) (strip_blank ls) = filter (\<lambda>l. \<not> isBlank l) ls"
proof -
  have d: "filter (\<lambda>l. \<not> isBlank l) (dropWhile isBlank xs) = filter (\<lambda>l. \<not> isBlank l) xs" for xs
    by (induction xs) simp_all
  show ?thesis by (simp add: strip_blank_pop d filter_pop_blank)
qed

lemma filter_out_lines:
  "filter (\<lambda>l. \<not> isBlank l) (out_lines ls) =
     (case filter (\<lambda>l. \<not> isBlank l) ls of [] \<Rightarrow> [] | l # r \<Rightarrow> trimStart l # r)"
proof (cases "strip_blank ls")
  case Nil
  with filter_strip_blank [of ls] show ?thesis by (simp add: out_lines_def)
next
  case (Cons e r)
  then have "\<not> isBlank e" by (rule strip_blank_hd)
  with Cons filter_strip_blank [of ls] show ?thesis
    by (auto simp: out_lines_def split: list.splits)
qed

lemma heading_spaced_sym: "heading_spaced a b = heading_spaced b a"
  by (auto simp: heading_spaced_def)

lemma successively_suffix: "successively P (xs @ ys) \<Longrightarrow> successively P ys"
  by (simp add: successively_append_iff)

lemma successively_strip_blank: "successively P ls \<Longrightarrow> successively P (strip_blank ls)"
proof -
  assume "successively P ls"
  then have "successively P (pop_blank ls)" by (rule successively_pop_blank)
  then have "successively P (takeWhile isBlank (pop_blank ls) @ strip_blank ls)"
    by (simp add: strip_blank_pop)
  then show ?thesis by (rule successively_suffix)
qed

lemma successively_out:
  assumes "successively P ls" and "\<And>a b. P (trimStart a) b = P a b"
  shows "successively P (out_lines ls)"
proof -
  from assms(1) have s: "successively P (strip_blank ls)" by (rule successively_strip_blank)
  show ?thesis
  proof (cases "strip_blank ls")
    case Nil
    then show ?thesis by (simp add: out_lines_def)
  next
    case (Cons e r)
    with s assms(2) show ?thesis by (cases r) (simp_all add: out_lines_def)
  qed
qed

lemma heading_spaced_out: "successively heading_spaced ls \<Longrightarrow> successively heading_spaced (out_lines ls)"
proof -
  assume "successively heading_spaced ls"
  then have s: "successively heading_spaced (strip_blank ls)" by (rule successively_strip_blank)
  show ?thesis
  proof (cases "strip_blank ls")
    case Nil
    then show ?thesis by (simp add: out_lines_def)
  next
    case (Cons e r)
    with s show ?thesis
      by (cases r) (simp_all add: out_lines_def heading_spaced_def)
  qed
qed

lemma gap_free_suffix: "gap_free (xs @ ys) \<Longrightarrow> gap_free ys"
  unfolding gap_free_def
proof (intro allI impI, elim conjE)
  fix pre a bs b post
  assume g: "\<forall>pre a bs b post. xs @ ys = pre @ a # bs @ b # post \<and> isListItem a \<and> isListItem b \<and>
      (\<forall>x\<in>set bs. isBlank x) \<longrightarrow> bs = []"
    and ys: "ys = pre @ a # bs @ b # post" and ab: "isListItem a" "isListItem b" "\<forall>x\<in>set bs. isBlank x"
  from ys have "xs @ ys = (xs @ pre) @ a # bs @ b # post" by simp
  with g ab show "bs = []" by blast
qed

lemma gap_free_out: "gap_free ls \<Longrightarrow> gap_free (out_lines ls)"
proof -
  assume "gap_free ls"
  then have "gap_free (pop_blank ls)" by (rule gap_free_pop_blank)
  then have "gap_free (takeWhile isBlank (pop_blank ls) @ strip_blank ls)"
    by (simp add: strip_blank_pop)
  then have s: "gap_free (strip_blank ls)" by (rule gap_free_suffix)
  show ?thesis
  proof (cases "strip_blank ls")
    case Nil
    then show ?thesis by (simp add: out_lines_def)
  next
    case (Cons e r)
    have "gap_free (trimStart e # r)"
      unfolding gap_free_def
    proof (intro allI impI, elim conjE)
      fix pre a bs b post
      assume eq: "trimStart e # r = pre @ a # bs @ b # post"
        and ab: "isListItem a" "isListItem b" "\<forall>x\<in>set bs. isBlank x"
      show "bs = []"
      proof (cases pre)
        case Nil
        with eq have "e # r = [] @ e # bs @ b # post" "isListItem e" using ab(1) by auto
        with s Cons ab show ?thesis unfolding gap_free_def by metis
      next
        case (Cons p pre')
        with eq have "e # r = (e # pre') @ a # bs @ b # post" by simp
        with s \<open>strip_blank ls = e # r\<close> ab show ?thesis unfolding gap_free_def by metis
      qed
    qed
    with Cons show ?thesis by (simp add: out_lines_def)
  qed
qed

lemma gap_free_single [simp]: "gap_free [l]"
  by (auto simp: gap_free_def Cons_eq_append_conv)

section \<open>Text without math delimiters\<close>

lemma delimited_re_None: "take (length opening) s \<noteq> opening \<Longrightarrow> delimited_re opening closing s = None"
  by (simp add: delimited_re_def lit_def)

lemma replace_fn_ident:
  assumes "\<And>c cs. c \<noteq> x \<Longrightarrow> rx (c # cs) = None" and "rx [] = None" and "x \<notin> set s"
  shows "replace_fn rx f s = s"
  using assms(3)
proof (induction s)
  case Nil
  show ?case using assms(2) by (rule replace_fn_Nil)
next
  case (Cons c cs)
  then have "rx (c # cs) = None" using assms(1) [of c cs] by auto
  with Cons show ?case by (simp add: replace_fn_None)
qed

lemma rewrite_display_ident: "BSL \<notin> set s \<Longrightarrow> rewrite_display s = s"
  unfolding rewrite_display_def
  by (rule replace_fn_ident [where x = BSL]) (auto simp: display_re_def delimited_re_None)

lemma rewrite_inline_ident: "BSL \<notin> set s \<Longrightarrow> rewrite_inline s = s"
  unfolding rewrite_inline_def
  by (rule replace_fn_ident [where x = BSL]) (auto simp: inline_re_def delimited_re_None)

lemma modifyContentProtected_plain:
  "BSL \<notin> set content \<Longrightarrow> modifyContentProtected content = normalize_lines content"
  by (simp add: modifyContentProtected_eq rewrite_display_ident rewrite_inline_ident)

lemma split_lines_concat: "set (concat (split_lines s)) \<subseteq> set s"
proof (induction s rule: split_lines.induct)
  case 1
  show ?case by simp
next
  case (2 c cs)
  show ?case
  proof (cases "c = LF")
    case True
    with 2 show ?thesis by auto
  next
    case nlf: False
    show ?thesis
    proof (cases "c = CR \<and> cs \<noteq> [] \<and> hd cs = LF")
      case True
      with nlf "2.IH"(2) have "set (concat (split_lines (tl cs))) \<subseteq> set (tl cs)" by simp
      moreover have "set (tl cs) \<subseteq> set cs" using True by (cases cs) auto
      ultimately show ?thesis using True nlf by auto
    next
      case False
      with nlf "2.IH"(3) have "set (concat (split_lines cs)) \<subseteq> set cs" by simp
      with False nlf show ?thesis by (cases "split_lines cs") auto
    qed
  qed
qed

lemma split_lines_subset: "l \<in> set (split_lines s) \<Longrightarrow> set l \<subseteq> set s"
  using split_lines_concat [of s] by auto

lemma out_lines_all_blank: "\<forall>e\<in>set ls. isBlank e \<Longrightarrow> out_lines ls = []"
proof -
  assume a: "\<forall>e\<in>set ls. isBlank e"
  have "strip_blank ls = []"
  proof (cases "strip_blank ls")
    case Nil
    then show ?thesis .
  next
    case (Cons e r)
    then have "\<not> isBlank e" by (rule strip_blank_hd)
    moreover obtain xs ys where "ls = xs @ strip_blank ls @ ys" using strip_blank_decomp by blast
    with Cons have "e \<in> set ls" by (metis in_set_conv_decomp append.assoc append_Cons)
    ultimately show ?thesis using a by blast
  qed
  then show ?thesis by (simp add: out_lines_def)
qed

lemma normalize_lines_blank:
  assumes "\<forall>c\<in>set t. is_space c"
  shows "normalize_lines t = []"
proof -
  let ?nl = "line_loop (split_lines t) [] None"
  have "isBlank l" if "l \<in> set (split_lines t)" for l
    using that assms split_lines_subset [of l t] by (auto simp: isBlank_iff)
  then have "filter (\<lambda>l. \<not> isBlank l) (split_lines t) = []" by (simp add: filter_empty_conv)
  then have "filter (\<lambda>l. \<not> isBlank l) ?nl = []" by (simp add: line_loop_filter)
  then have "\<forall>e\<in>set ?nl. isBlank e" by (simp add: filter_empty_conv)
  then have "out_lines ?nl = []" by (rule out_lines_all_blank)
  then show ?thesis by (simp add: normalize_lines_eq)
qed

section \<open>The claims about the normalizer\<close>

text \<open>
  Claim C3. In the result of \<open>modifyContentProtected\<close>, of any two lines that follow one
  another, if the first is a heading then the second is blank, and if the second is a
  heading then the first is blank: a heading has a blank line or the start of the
  document before it, and a blank line or the end of the document after it.
\<close>

theorem heading_spacing:
  "successively (\<lambda>a b. (isHeading a \<longrightarrow> isBlank b) \<and> (isHeading b \<longrightarrow> isBlank a))
     (split_lines (modifyContentProtected content))"
proof -
  let ?nl = "line_loop (split_lines (rewrite_inline (rewrite_display content))) [] None"
  have "successively heading_spaced ?nl" using line_loop_inv by blast
  then have "successively heading_spaced (out_lines ?nl)" by (rule heading_spaced_out)
  then have "successively heading_spaced (split_lines (modifyContentProtected content))"
    by (simp add: modifyContentProtected_eq split_lines_normalize)
  then show ?thesis by (simp add: heading_spaced_def [abs_def])
qed

theorem heading_spacing_witness:
  "split_lines (modifyContentProtected ''x\<newline># H\<newline>y'') = [''x'', '''', ''# H'', '''', ''y''] \<and>
   isHeading ''# H'' \<and>
   successively (\<lambda>a b. (isHeading a \<longrightarrow> isBlank b) \<and> (isHeading b \<longrightarrow> isBlank a))
     (split_lines (modifyContentProtected ''x\<newline># H\<newline>y''))"
proof -
  have "split_lines (modifyContentProtected ''x\<newline># H\<newline>y'') = [''x'', '''', ''# H'', '''', ''y'']"
    by code_simp
  moreover have "isHeading ''# H''" by code_simp
  ultimately show ?thesis using heading_spacing [of "''x\<newline># H\<newline>y''"] by simp
qed

text \<open>
  Claim C4. In the result of \<open>modifyContentProtected\<close>, no two list items have blank
  lines, and nothing else, between them; and the three list items of the example,
  which blank lines separate, come out on three lines that follow one another.
\<close>

theorem list_compaction:
  "\<not> (\<exists>pre a bs b post.
        split_lines (modifyContentProtected content) = pre @ a # bs @ b # post \<and>
        isListItem a \<and> isListItem b \<and> bs \<noteq> [] \<and> (\<forall>x\<in>set bs. isBlank x)) \<and>
   modifyContentProtected ''- a\<newline>\<newline>- b\<newline>\<newline>- c'' = ''- a\<newline>- b\<newline>- c''"
proof -
  let ?nl = "line_loop (split_lines (rewrite_inline (rewrite_display content))) [] None"
  have "gap_free ?nl" using line_loop_inv by blast
  then have "gap_free (out_lines ?nl)" by (rule gap_free_out)
  then have "gap_free (split_lines (modifyContentProtected content))"
    by (simp add: modifyContentProtected_eq split_lines_normalize)
  then have "\<not> (\<exists>pre a bs b post.
        split_lines (modifyContentProtected content) = pre @ a # bs @ b # post \<and>
        isListItem a \<and> isListItem b \<and> bs \<noteq> [] \<and> (\<forall>x\<in>set bs. isBlank x))"
    unfolding gap_free_def by blast
  moreover have "modifyContentProtected ''- a\<newline>\<newline>- b\<newline>\<newline>- c'' = ''- a\<newline>- b\<newline>- c''"
    by code_simp
  ultimately show ?thesis by simp
qed

theorem list_compaction_witness:
  "split_lines (modifyContentProtected ''- a\<newline>\<newline>- b'') = [''- a'', ''- b''] \<and>
   isListItem ''- a'' \<and> isListItem ''- b'' \<and>
   \<not> (\<exists>pre a bs b post.
        split_lines (modifyContentProtected ''- a\<newline>\<newline>- b'') = pre @ a # bs @ b # post \<and>
        isListItem a \<and> isListItem b \<and> bs \<noteq> [] \<and> (\<forall>x\<in>set bs. isBlank x))"
proof -
  have "split_lines (modifyContentProtected ''- a\<newline>\<newline>- b'') = [''- a'', ''- b'']" by code_simp
  moreover have "isListItem ''- a''" "isListItem ''- b''" by code_simp+
  ultimately show ?thesis using list_compaction [of "''- a\<newline>\<newline>- b''"] by (simp only: simp_thms)
qed

text \<open>
  Claim C9. For a text of white space and line terminators only, the empty text
  included, \<open>modifyContentProtected\<close> returns the empty text.
\<close>

theorem blank_content_empty:
  "\<forall>c\<in>set content. is_space c \<Longrightarrow> modifyContentProtected content = []"
proof -
  assume a: "\<forall>c\<in>set content. is_space c"
  then have "BSL \<notin> set content" by (auto dest: not_space_marker)
  with a show ?thesis by (simp add: modifyContentProtected_plain normalize_lines_blank)
qed

theorem blank_content_empty_witness:
  "modifyContentProtected [CHR '' '', LF, CHR 0x09, CR, LF, CHR '' ''] = [] \<and> modifyContentProtected [] = []"
  using blank_content_empty [of "[CHR '' '', LF, CHR 0x09, CR, LF, CHR '' '']"] blank_content_empty [of "[]"]
  by (simp add: is_space_def)

text \<open>
  Claim C10. The lines of the result of the second half of \<open>modifyContentProtected\<close>
  (split, loop, post-pass) that are not blank are the lines of its input that are not
  blank, in their order, each without its trailing white space and the first of them
  also without its leading white space.
\<close>

theorem nonblank_lines_kept:
  "filter (\<lambda>l. \<not> isBlank l) (split_lines (normalize_lines newContent)) =
     (case map trimEnd (filter (\<lambda>l. \<not> isBlank l) (split_lines newContent)) of
        [] \<Rightarrow> []
      | l # ls \<Rightarrow> trimStart l # ls)"
proof -
  let ?nl = "line_loop (split_lines newContent) [] None"
  have "filter (\<lambda>l. \<not> isBlank l) (split_lines (normalize_lines newContent)) =
        filter (\<lambda>l. \<not> isBlank l) (out_lines ?nl)"
    by (simp add: split_lines_normalize)
  also have "\<dots> = (case filter (\<lambda>l. \<not> isBlank l) ?nl of [] \<Rightarrow> [] | l # r \<Rightarrow> trimStart l # r)"
    by (rule filter_out_lines)
  finally show ?thesis by (simp add: line_loop_filter)
qed

theorem nonblank_lines_kept_witness:
  "split_lines ''  a  \<newline>\<newline>\<newline>- b \<newline>  c '' = [''  a  '', '''', '''', ''- b '', ''  c ''] \<and>
   filter (\<lambda>l. \<not> isBlank l) (split_lines (normalize_lines ''  a  \<newline>\<newline>\<newline>- b \<newline>  c '')) =
     [''a'', ''- b'', ''  c'']"
proof -
  have "split_lines ''  a  \<newline>\<newline>\<newline>- b \<newline>  c '' = [''  a  '', '''', '''', ''- b '', ''  c '']"
    by code_simp
  moreover have "(case map trimEnd (filter (\<lambda>l. \<not> isBlank l) [''  a  '', '''', '''', ''- b '', ''  c '']) of
        [] \<Rightarrow> [] | l # ls \<Rightarrow> trimStart l # ls) = [''a'', ''- b'', ''  c'']"
    by code_simp
  ultimately show ?thesis
    using nonblank_lines_kept [of "''  a  \<newline>\<newline>\<newline>- b \<newline>  c ''"] by simp
qed

section \<open>The math rewriter, against the specification\<close>

lemma find_first_length: "find_first p s = Some (b, a) \<Longrightarrow> length a \<le> length s"
  by (induction s arbitrary: b) (auto split: if_splits option.splits)

lemma find_first_Some: "find_first p s = Some (b, a) \<Longrightarrow> s = b @ p @ a"
proof (induction s arbitrary: b)
  case Nil
  then show ?case by (auto split: if_splits)
next
  case (Cons c cs)
  show ?case
  proof (cases "take (length p) (c # cs) = p")
    case True
    with Cons.prems have "b = []" "a = drop (length p) (c # cs)" by simp_all
    with True show ?thesis using append_take_drop_id [of "length p" "c # cs"] by simp
  next
    case False
    with Cons.prems obtain b' where "find_first p cs = Some (b', a)" "b = c # b'"
      by (auto split: option.splits)
    with Cons.IH show ?thesis by simp
  qed
qed

lemma find_first_skip:
  assumes "p \<noteq> []" and "hd p \<notin> set w"
  shows "find_first p (w @ s) = map_option (\<lambda>(b, a). (w @ b, a)) (find_first p s)"
  using assms(2)
proof (induction w)
  case Nil
  show ?case by (simp add: option.map_ident case_prod_unfold)
next
  case (Cons c w)
  have "take (length p) (c # w @ s) \<noteq> p"
  proof
    assume "take (length p) (c # w @ s) = p"
    with assms(1) have "hd p = c" by (cases p) auto
    with Cons.prems show False by simp
  qed
  with Cons show ?case by (auto split: option.splits)
qed

lemma lit_Cons:
  "lit [a, b] s k = (case s of x # y # t \<Rightarrow> if x = a \<and> y = b then k t else None | _ \<Rightarrow> None)"
  by (auto simp: lit_def split: list.splits)

lemma star_greedy_mono:
  assumes "\<And>c cs. P c \<Longrightarrow> k cs = None \<Longrightarrow> k (c # cs) = None"
  shows "star_greedy P s k = k (dropWhile P s)"
proof (induction s)
  case Nil
  show ?case by simp
next
  case (Cons c cs)
  show ?case
  proof (cases "P c")
    case False
    then show ?thesis by simp
  next
    case True
    have undo: "k (dropWhile P t) = None \<Longrightarrow> k t = None" for t
    proof (induction t)
      case Nil
      then show ?case by simp
    next
      case (Cons a t)
      then show ?case by (cases "P a") (simp_all add: assms)
    qed
    show ?thesis
    proof (cases "k (dropWhile P cs)")
      case None
      then have "k cs = None" by (rule undo)
      with True have "k (c # cs) = None" by (rule assms)
      with True None Cons show ?thesis by simp
    next
      case (Some r)
      with True Cons show ?thesis by simp
    qed
  qed
qed

lemma trimEnd_Cons: "\<not> isBlank (c # s) \<Longrightarrow> trimEnd (c # s) = c # trimEnd s"
proof (cases "isBlank s")
  case True
  assume "\<not> isBlank (c # s)"
  with True have c: "\<not> is_space c" by (auto simp: isBlank_iff)
  from True have "dropWhile is_space (rev s) = []" by (simp add: isBlank_iff)
  with c show ?thesis by (simp add: trimEnd_def dropWhile_append)
next
  case False
  then have "dropWhile is_space (rev s) \<noteq> []" by (simp add: isBlank_iff)
  then show ?thesis by (simp add: trimEnd_def dropWhile_append)
qed

text \<open>The lazy quantifier stops at the first closing delimiter.\<close>

lemma lazy_until_closing:
  fixes n :: nat and cl :: char
  defines "k \<equiv> \<lambda>full s3. lit [BSL, cl] (dropWhile is_space s3)
                   (\<lambda>s5. Some (take (length full - length s3) full, n - length s5))"
  shows "star_lazy any_char t (k (p @ t)) =
         (case find_first [BSL, cl] t of
            None \<Rightarrow> None
          | Some (b, a) \<Rightarrow> Some (p @ trimEnd b, n - length a))"
proof (induction t arbitrary: p)
  case Nil
  show ?case by (simp add: k_def lit_Cons)
next
  case (Cons c cs)
  have bs: "\<not> is_space BSL" by (simp add: is_space_def)
  show ?case
  proof (cases "\<exists>a. dropWhile is_space (c # cs) = BSL # cl # a")
    case True
    then obtain a where a: "dropWhile is_space (c # cs) = BSL # cl # a" by blast
    define w where "w = takeWhile is_space (c # cs)"
    have ws: "\<forall>x\<in>set w. is_space x" by (auto simp: w_def dest: set_takeWhileD)
    have eq: "c # cs = w @ [BSL, cl] @ a"
      using takeWhile_dropWhile_id [of is_space "c # cs"] a by (simp add: w_def)
    have "hd [BSL, cl] \<notin> set w" using bs ws by auto
    then have "find_first [BSL, cl] (w @ [BSL, cl] @ a) =
        map_option (\<lambda>(b, a). (w @ b, a)) (find_first [BSL, cl] ([BSL, cl] @ a))"
      by (intro find_first_skip) simp_all
    then have "find_first [BSL, cl] (w @ [BSL, cl] @ a) = Some (w, a)" by simp
    then have f: "find_first [BSL, cl] (c # cs) = Some (w, a)" by (simp only: eq)
    have "trimEnd w = []" using ws by (simp add: trimEnd_Nil_iff)
    moreover have "k (p @ c # cs) (c # cs) =
        lit [BSL, cl] (BSL # cl # a)
          (\<lambda>s5. Some (take (length (p @ c # cs) - length (c # cs)) (p @ c # cs), n - length s5))"
      unfolding k_def a ..
    then have "k (p @ c # cs) (c # cs) = Some (p, n - length a)"
      by (simp add: lit_Cons)
    ultimately show ?thesis using f by (simp add: any_char_def)
  next
    case False
    have kn: "k (p @ c # cs) (c # cs) = None"
    proof -
      define d where "d = dropWhile is_space (c # cs)"
      have "\<forall>a. d \<noteq> BSL # cl # a" using False by (simp add: d_def)
      then have "lit [BSL, cl] d K = None" for K :: "string \<Rightarrow> (string \<times> nat) option"
        by (auto simp: lit_Cons split: list.splits)
      then show ?thesis unfolding k_def d_def .
    qed
    have np: "take 2 (c # cs) \<noteq> [BSL, cl]"
    proof
      assume t: "take 2 (c # cs) = [BSL, cl]"
      then have "c = BSL" by simp
      with bs have "dropWhile is_space (c # cs) = c # cs" by simp
      with t False show False by (cases cs) auto
    qed
    have sl: "star_lazy any_char (c # cs) (k (p @ c # cs)) = star_lazy any_char cs (k ((p @ [c]) @ cs))"
      using kn by (simp add: any_char_def)
    have ff: "find_first [BSL, cl] (c # cs) =
        (case find_first [BSL, cl] cs of None \<Rightarrow> None | Some (b, a) \<Rightarrow> Some (c # b, a))"
      using np by auto
    have IH: "star_lazy any_char cs (k ((p @ [c]) @ cs)) =
         (case find_first [BSL, cl] cs of None \<Rightarrow> None
          | Some (b, a) \<Rightarrow> Some ((p @ [c]) @ trimEnd b, n - length a))"
      by (rule Cons.IH)
    show ?thesis
    proof (cases "find_first [BSL, cl] cs")
      case None
      show ?thesis unfolding sl IH ff None by simp
    next
      case (Some ba)
      obtain b a where ba: "ba = (b, a)" by (cases ba)
      with Some have cs: "cs = b @ [BSL, cl] @ a" using find_first_Some by blast
      have nb: "\<not> isBlank (c # b)"
      proof
        assume "isBlank (c # b)"
        then have "\<forall>x\<in>set (c # b). is_space x" by (simp add: isBlank_iff)
        then have "dropWhile is_space ((c # b) @ BSL # cl # a) = dropWhile is_space (BSL # cl # a)"
          by (intro dropWhile_append2) auto
        with bs cs have "dropWhile is_space (c # cs) = BSL # cl # a" by simp
        with False show False by blast
      qed
      then have "trimEnd (c # b) = c # trimEnd b" by (rule trimEnd_Cons)
      then show ?thesis unfolding sl IH ff Some ba by simp
    qed
  qed
qed


lemma trim_idem [simp]: "trim (trim s) = trim s"
  by (simp add: trim_def trimEnd_trimStart)

lemma trim_skip_space: "\<forall>x\<in>set w. is_space x \<Longrightarrow> trim (w @ b) = trim b"
  by (simp add: trim_def trimStart_def dropWhile_append2)

text \<open>A match of the pattern of a math span: from the opening delimiter to the first closing one.\<close>

lemma delimited_re_eq:
  "delimited_re [BSL, opn] [BSL, cl] s =
     (case s of
        x # y # s1 \<Rightarrow>
          if x = BSL \<and> y = opn then
            map_option (\<lambda>(content, rest). (trim content, length s - length rest))
              (find_first [BSL, cl] s1)
          else None
      | _ \<Rightarrow> None)"
proof -
  have bs: "\<not> is_space BSL" by (simp add: is_space_def)
  define F where "F = (\<lambda>(s2 :: string) (s3 :: string) (s5 :: string).
      Some (take (length s2 - length s3) s2, length s - length s5))"
  define K2 where "K2 = (\<lambda>s2. star_lazy any_char s2 (\<lambda>s3.
      star_greedy is_space s3 (\<lambda>s4. lit [BSL, cl] s4 (F s2 s3))))"
  have inner: "star_greedy is_space s3 (\<lambda>s4. lit [BSL, cl] s4 (F s2 s3)) =
               lit [BSL, cl] (dropWhile is_space s3) (F s2 s3)" for s2 s3
    by (rule star_greedy_skip) (use bs in \<open>auto simp: lit_Cons split: list.splits\<close>)
  have K2: "K2 s2 = (case find_first [BSL, cl] s2 of None \<Rightarrow> None
                     | Some (b, a) \<Rightarrow> Some (trimEnd b, length s - length a))" for s2
  proof -
    have "K2 s2 = star_lazy any_char s2 (\<lambda>s3. lit [BSL, cl] (dropWhile is_space s3) (F s2 s3))"
      by (simp only: K2_def inner)
    then show ?thesis
      using lazy_until_closing [of s2 cl "[]" "length s"]
      by (simp add: F_def cong: option.case_cong)
  qed
  have sk: "find_first [BSL, cl] (w @ t) = map_option (\<lambda>(b, a). (w @ b, a)) (find_first [BSL, cl] t)"
    if "\<forall>x\<in>set w. is_space x" for w t
    using that bs by (intro find_first_skip) auto
  have mono: "K2 (c # cs) = None" if "is_space c" "K2 cs = None" for c cs
    using that sk [of "[c]" cs] by (auto simp: K2 split: option.splits)
  have greedy: "star_greedy is_space s1 K2 = K2 (dropWhile is_space s1)" for s1
    by (rule star_greedy_mono) (rule mono)
  have res: "K2 (dropWhile is_space s1) =
        map_option (\<lambda>(content, rest). (trim content, length s - length rest)) (find_first [BSL, cl] s1)" for s1
  proof -
    define w where "w = takeWhile is_space s1"
    define t where "t = dropWhile is_space s1"
    have ws: "\<forall>x\<in>set w. is_space x" by (auto simp: w_def dest: set_takeWhileD)
    have s1: "s1 = w @ t" by (simp add: w_def t_def)
    have ff: "find_first [BSL, cl] s1 = map_option (\<lambda>(b, a). (w @ b, a)) (find_first [BSL, cl] t)"
      unfolding s1 using ws by (rule sk)
    show ?thesis
    proof (cases "find_first [BSL, cl] t")
      case None
      with ff show ?thesis by (simp add: K2 t_def [symmetric])
    next
      case (Some ba)
      obtain b a where ba: "ba = (b, a)" by (cases ba)
      with Some have t: "t = b @ [BSL, cl] @ a" using find_first_Some by blast
      have "dropWhile is_space b = b"
      proof (cases b)
        case Nil
        then show ?thesis by simp
      next
        case (Cons h b')
        with t have "hd t = h" "t \<noteq> []" by simp_all
        then have "\<not> is_space h" using hd_dropWhile [of is_space s1] by (simp add: t_def)
        with Cons show ?thesis by simp
      qed
      then have "trim b = trimEnd b" by (simp add: trim_def trimStart_def)
      then have "trim (w @ b) = trimEnd b" using ws by (simp add: trim_skip_space)
      with Some ba ff show ?thesis by (simp add: K2 t_def [symmetric])
    qed
  qed
  have "delimited_re [BSL, opn] [BSL, cl] s =
        lit [BSL, opn] s (\<lambda>s1. star_greedy is_space s1 K2)"
    by (simp add: delimited_re_def K2_def F_def)
  then show ?thesis
    by (simp add: greedy res lit_Cons split: list.splits)
qed

lemma delimited_re_simps:
  "delimited_re [BSL, opn] [BSL, cl] [] = None"
  "delimited_re [BSL, opn] [BSL, cl] [x] = None"
  "delimited_re [BSL, opn] [BSL, cl] (x # y # s) =
     (if x = BSL \<and> y = opn then
        map_option (\<lambda>(content, rest). (trim content, Suc (Suc (length s)) - length rest))
          (find_first [BSL, cl] s)
      else None)"
  by (simp_all add: delimited_re_eq)

text \<open>One pass of the rewriter does what the specification says of it.\<close>

lemma rewrite_spans_eq:
  "replace_fn (delimited_re [BSL, opn] [BSL, cl]) (\<lambda>match inner. d @ trim inner @ d) s =
   spec_rewrite_spans opn cl d s"
proof (induction opn cl d s rule: spec_rewrite_spans.induct)
  case (1 opn cl d)
  show ?case by (simp add: replace_fn_Nil delimited_re_simps)
next
  case (2 opn cl d x)
  show ?case by (simp add: replace_fn_None replace_fn_Nil delimited_re_simps)
next
  case (3 opn cl d x y s)
  show ?case
  proof (cases "x = BSL \<and> y = opn")
    case False
    then have "delimited_re [BSL, opn] [BSL, cl] (x # y # s) = None"
      by (auto simp: delimited_re_simps)
    with False "3.IH"(3) show ?thesis by (auto simp: replace_fn_None)
  next
    case True
    show ?thesis
    proof (cases "find_first [BSL, cl] s")
      case None
      with True have "delimited_re [BSL, opn] [BSL, cl] (x # y # s) = None"
        by (simp add: delimited_re_simps)
      moreover note "3.IH"(1) [OF True None]
      ultimately show ?thesis using True None by (simp add: replace_fn_None)
    next
      case (Some cr)
      obtain content rest where cr: "cr = (content, rest)" by (cases cr)
      with Some have s: "s = content @ [BSL, cl] @ rest" using find_first_Some by blast
      define n where "n = Suc (Suc (length s)) - length rest"
      have n: "0 < n" "n = length (x # y # content @ [BSL, cl])" by (simp_all add: n_def s)
      have "x # y # s = (x # y # content @ [BSL, cl]) @ rest" by (simp add: s)
      then have dr: "drop n (x # y # s) = rest" using n(2) by (metis append_eq_conv_conj)
      have m: "delimited_re [BSL, opn] [BSL, cl] (x # y # s) = Some (trim content, n)"
        using True Some cr by (simp add: delimited_re_simps n_def)
      have "replace_fn (delimited_re [BSL, opn] [BSL, cl]) (\<lambda>match inner. d @ trim inner @ d) (x # y # s) =
            (d @ trim (trim content) @ d) @
            replace_fn (delimited_re [BSL, opn] [BSL, cl]) (\<lambda>match inner. d @ trim inner @ d) (drop n (x # y # s))"
        using m n(1) by (rule replace_fn_Some)
      moreover note "3.IH"(2) [OF True Some cr [symmetric]]
      ultimately show ?thesis using True Some cr dr by simp
    qed
  qed
qed

lemma rewrite_display_spec: "rewrite_display content = spec_rewrite_spans (CHR ''['') (CHR '']'') ''$$'' content"
  unfolding rewrite_display_def display_re_def by (rule rewrite_spans_eq)

lemma rewrite_inline_spec: "rewrite_inline content = spec_rewrite_spans (CHR ''('') (CHR '')'') ''$'' content"
  unfolding rewrite_inline_def inline_re_def by (rule rewrite_spans_eq)

text \<open>
  Claim C6. The first pass of the math rewriter replaces every span from a \<open>\[\<close> to
  the next \<open>\]\<close> by its trimmed content between \<open>$$\<close>, over the whole text; the
  second pass then does the same with \<open>\(\<close>, \<open>\)\<close> and \<open>$\<close> on the result of the
  first. On the examples: \<open>\[ x^2 \]\<close> becomes \<open>$$x^2$$\<close>, \<open>\(a+b\)\<close> becomes
  \<open>$a+b$\<close>, and \<open>\( x \)\<close> inside a fenced code block comes back as it was.
\<close>

theorem math_rewrite:
  "rewrite_display content = spec_rewrite_spans (CHR ''['') (CHR '']'') ''$$'' content \<and>
   rewrite_inline content = spec_rewrite_spans (CHR ''('') (CHR '')'') ''$'' content \<and>
   modifyContentProtected content =
     normalize_lines
       (spec_rewrite_spans (CHR ''('') (CHR '')'') ''$''
         (spec_rewrite_spans (CHR ''['') (CHR '']'') ''$$'' content)) \<and>
   modifyContentProtected (BSL # ''[ x^2 '' @ BSL # '']'') = ''$$x^2$$'' \<and>
   modifyContentProtected (BSL # ''(a+b'' @ BSL # '')'') = ''$a+b$'' \<and>
   lint (fence @ LF # BSL # ''( x '' @ BSL # '')'' @ LF # fence) =
     fence @ LF # BSL # ''( x '' @ BSL # '')'' @ LF # fence"
proof -
  have "modifyContentProtected (BSL # ''[ x^2 '' @ BSL # '']'') = ''$$x^2$$''" by code_simp
  moreover have "modifyContentProtected (BSL # ''(a+b'' @ BSL # '')'') = ''$a+b$''" by code_simp
  moreover have "lint (fence @ LF # BSL # ''( x '' @ BSL # '')'' @ LF # fence) =
     fence @ LF # BSL # ''( x '' @ BSL # '')'' @ LF # fence" by code_simp
  ultimately show ?thesis
    by (simp add: modifyContentProtected_eq rewrite_display_spec rewrite_inline_spec)
qed

section \<open>When a backtracking matcher finds a match\<close>

lemma lit_found: "lit p s k \<noteq> None \<longleftrightarrow> (\<exists>t. s = p @ t \<and> k t \<noteq> None)"
proof
  assume "lit p s k \<noteq> None"
  then have "take (length p) s = p" "k (drop (length p) s) \<noteq> None"
    by (auto simp: lit_def split: if_splits)
  then have "s = p @ drop (length p) s \<and> k (drop (length p) s) \<noteq> None"
    using append_take_drop_id [of "length p" s] by simp
  then show "\<exists>t. s = p @ t \<and> k t \<noteq> None" by blast
next
  assume "\<exists>t. s = p @ t \<and> k t \<noteq> None"
  then show "lit p s k \<noteq> None" by (auto simp: lit_def)
qed

lemma cls_found: "cls P s k \<noteq> None \<longleftrightarrow> (\<exists>c t. s = c # t \<and> P c \<and> k t \<noteq> None)"
  by (cases s) (simp_all add: cls_def)

lemma eos_found: "eos s k \<noteq> None \<longleftrightarrow> s = [] \<and> k [] \<noteq> None"
  by (auto simp: eos_def)

lemma orelse_found: "orelse a b \<noteq> None \<longleftrightarrow> a \<noteq> None \<or> b \<noteq> None"
  by (cases a) simp_all

lemma star_greedy_found:
  "star_greedy P s k \<noteq> None \<longleftrightarrow> (\<exists>w t. s = w @ t \<and> (\<forall>x\<in>set w. P x) \<and> k t \<noteq> None)"
proof (induction s)
  case Nil
  show ?case by simp
next
  case (Cons c cs)
  show ?case
  proof
    assume "star_greedy P (c # cs) k \<noteq> None"
    then consider "P c" "star_greedy P cs k \<noteq> None" | "k (c # cs) \<noteq> None"
      by (cases "P c") (auto simp del: not_None_eq)
    then show "\<exists>w t. c # cs = w @ t \<and> (\<forall>x\<in>set w. P x) \<and> k t \<noteq> None"
    proof cases
      case 1
      with Cons obtain w t where "cs = w @ t" "\<forall>x\<in>set w. P x" "k t \<noteq> None" by blast
      with 1(1) have "c # cs = (c # w) @ t \<and> (\<forall>x\<in>set (c # w). P x) \<and> k t \<noteq> None" by simp
      then show ?thesis by blast
    next
      case 2
      then have "c # cs = [] @ (c # cs) \<and> (\<forall>x\<in>set []. P x) \<and> k (c # cs) \<noteq> None" by simp
      then show ?thesis by blast
    qed
  next
    assume "\<exists>w t. c # cs = w @ t \<and> (\<forall>x\<in>set w. P x) \<and> k t \<noteq> None"
    then obtain w t where wt: "c # cs = w @ t" "\<forall>x\<in>set w. P x" "k t \<noteq> None" by blast
    show "star_greedy P (c # cs) k \<noteq> None"
    proof (cases w)
      case Nil
      with wt show ?thesis by (auto simp: orelse_def split: option.splits)
    next
      case (Cons c' w')
      with wt have "P c" "cs = w' @ t" "\<forall>x\<in>set w'. P x" by simp_all
      with wt(3) Cons.IH have "star_greedy P cs k \<noteq> None" by blast
      with \<open>P c\<close> show ?thesis by (auto simp del: not_None_eq)
    qed
  qed
qed

lemma star_lazy_found:
  "star_lazy P s k \<noteq> None \<longleftrightarrow> (\<exists>w t. s = w @ t \<and> (\<forall>x\<in>set w. P x) \<and> k t \<noteq> None)"
proof (induction s)
  case Nil
  show ?case by simp
next
  case (Cons c cs)
  show ?case
  proof
    assume "star_lazy P (c # cs) k \<noteq> None"
    then consider "P c" "star_lazy P cs k \<noteq> None" | "k (c # cs) \<noteq> None"
      by (cases "P c") (auto simp del: not_None_eq)
    then show "\<exists>w t. c # cs = w @ t \<and> (\<forall>x\<in>set w. P x) \<and> k t \<noteq> None"
    proof cases
      case 1
      with Cons obtain w t where "cs = w @ t" "\<forall>x\<in>set w. P x" "k t \<noteq> None" by blast
      with 1(1) have "c # cs = (c # w) @ t \<and> (\<forall>x\<in>set (c # w). P x) \<and> k t \<noteq> None" by simp
      then show ?thesis by blast
    next
      case 2
      then have "c # cs = [] @ (c # cs) \<and> (\<forall>x\<in>set []. P x) \<and> k (c # cs) \<noteq> None" by simp
      then show ?thesis by blast
    qed
  next
    assume "\<exists>w t. c # cs = w @ t \<and> (\<forall>x\<in>set w. P x) \<and> k t \<noteq> None"
    then obtain w t where wt: "c # cs = w @ t" "\<forall>x\<in>set w. P x" "k t \<noteq> None" by blast
    show "star_lazy P (c # cs) k \<noteq> None"
    proof (cases w)
      case Nil
      with wt show ?thesis by (auto simp: orelse_def split: option.splits)
    next
      case (Cons c' w')
      with wt have "P c" "cs = w' @ t" "\<forall>x\<in>set w'. P x" by simp_all
      with wt(3) Cons.IH have "star_lazy P cs k \<noteq> None" by blast
      with \<open>P c\<close> show ?thesis by (auto simp del: not_None_eq)
    qed
  qed
qed

lemma yamlRegex_found: "yamlRegex d \<noteq> None \<longleftrightarrow> frontmatter_shape d"
proof -
  define K7 :: "string \<Rightarrow> nat option" where
    "K7 = (\<lambda>s7. orelse (cls is_crlf s7 (\<lambda>s8. Some (length d - length s8)))
                       (eos s7 (\<lambda>s8. Some (length d - length s8))))"
  define K6 where "K6 = (\<lambda>s6. star_greedy is_space s6 K7)"
  define K5 where "K5 = (\<lambda>s5. lit ''---'' s5 K6)"
  define K4 where "K4 = (\<lambda>s4. cls is_crlf s4 K5)"
  define K3 where "K3 = (\<lambda>s3. star_lazy any_char s3 K4)"
  define K2 where "K2 = (\<lambda>s2. cls is_crlf s2 K3)"
  define K1 where "K1 = (\<lambda>s1. star_greedy is_space s1 K2)"
  have y: "yamlRegex d = lit ''---'' d K1"
    by (simp add: yamlRegex_def K1_def K2_def K3_def K4_def K5_def K6_def K7_def)
  have f7: "K7 s \<noteq> None \<longleftrightarrow> s = [] \<or> is_crlf (hd s)" for s
    unfolding K7_def orelse_found cls_found eos_found by (cases s) auto
  have f6: "K6 s \<noteq> None \<longleftrightarrow>
      (\<exists>v r. s = v @ r \<and> (\<forall>x\<in>set v. is_space x) \<and> (r = [] \<or> is_crlf (hd r)))" for s
    unfolding K6_def star_greedy_found f7 ..
  have f5: "K5 s \<noteq> None \<longleftrightarrow>
      (\<exists>v r. s = ''---'' @ v @ r \<and> (\<forall>x\<in>set v. is_space x) \<and> (r = [] \<or> is_crlf (hd r)))" for s
    unfolding K5_def lit_found f6 by blast
  have f4: "K4 s \<noteq> None \<longleftrightarrow>
      (\<exists>c2 v r. s = c2 # ''---'' @ v @ r \<and> is_crlf c2 \<and> (\<forall>x\<in>set v. is_space x) \<and>
         (r = [] \<or> is_crlf (hd r)))" for s
    unfolding K4_def cls_found f5 by blast
  have f3: "K3 s \<noteq> None \<longleftrightarrow>
      (\<exists>y c2 v r. s = y @ c2 # ''---'' @ v @ r \<and> is_crlf c2 \<and> (\<forall>x\<in>set v. is_space x) \<and>
         (r = [] \<or> is_crlf (hd r)))" for s
    unfolding K3_def star_lazy_found f4 by (simp add: any_char_def) blast
  have f2: "K2 s \<noteq> None \<longleftrightarrow>
      (\<exists>c1 y c2 v r. s = c1 # y @ c2 # ''---'' @ v @ r \<and> is_crlf c1 \<and> is_crlf c2 \<and>
         (\<forall>x\<in>set v. is_space x) \<and> (r = [] \<or> is_crlf (hd r)))" for s
    unfolding K2_def cls_found f3 by blast
  have f1: "K1 s \<noteq> None \<longleftrightarrow>
      (\<exists>w c1 y c2 v r. s = w @ c1 # y @ c2 # ''---'' @ v @ r \<and> (\<forall>x\<in>set w. is_space x) \<and>
         is_crlf c1 \<and> is_crlf c2 \<and> (\<forall>x\<in>set v. is_space x) \<and> (r = [] \<or> is_crlf (hd r)))" for s
    unfolding K1_def star_greedy_found f2 by blast
  show ?thesis
    unfolding y lit_found f1 frontmatter_shape_def by blast
qed


section \<open>What a match consumed\<close>

lemma lit_sound: "lit p s k = Some r \<Longrightarrow> \<exists>t. s = p @ t \<and> k t = Some r"
proof -
  assume "lit p s k = Some r"
  then have "take (length p) s = p" "k (drop (length p) s) = Some r"
    by (auto simp: lit_def split: if_splits)
  then have "s = p @ drop (length p) s \<and> k (drop (length p) s) = Some r"
    using append_take_drop_id [of "length p" s] by simp
  then show ?thesis by blast
qed

lemma cls_sound: "cls P s k = Some r \<Longrightarrow> \<exists>c t. s = c # t \<and> P c \<and> k t = Some r"
  by (cases s) (simp_all add: cls_def split: if_splits)

lemma orelse_sound: "orelse a b = Some r \<Longrightarrow> a = Some r \<or> b = Some r"
  by (cases a) simp_all

lemma eos_sound: "eos s k = Some r \<Longrightarrow> s = [] \<and> k [] = Some r"
  by (auto simp: eos_def split: if_splits)

lemma star_greedy_sound:
  "star_greedy P s k = Some r \<Longrightarrow> \<exists>w t. s = w @ t \<and> (\<forall>x\<in>set w. P x) \<and> k t = Some r"
proof (induction s)
  case Nil
  then show ?case by simp
next
  case (Cons c cs)
  then consider "P c" "star_greedy P cs k = Some r" | "k (c # cs) = Some r"
    by (cases "P c") (auto dest: orelse_sound)
  then show ?case
  proof cases
    case 1
    with Cons.IH obtain w t where "cs = w @ t" "\<forall>x\<in>set w. P x" "k t = Some r" by blast
    with 1(1) have "c # cs = (c # w) @ t \<and> (\<forall>x\<in>set (c # w). P x) \<and> k t = Some r" by simp
    then show ?thesis by blast
  next
    case 2
    then have "c # cs = [] @ (c # cs) \<and> (\<forall>x\<in>set []. P x) \<and> k (c # cs) = Some r" by simp
    then show ?thesis by blast
  qed
qed

lemma star_lazy_sound:
  "star_lazy P s k = Some r \<Longrightarrow> \<exists>w t. s = w @ t \<and> (\<forall>x\<in>set w. P x) \<and> k t = Some r"
proof (induction s)
  case Nil
  then show ?case by simp
next
  case (Cons c cs)
  then consider "P c" "star_lazy P cs k = Some r" | "k (c # cs) = Some r"
    by (cases "P c") (auto dest: orelse_sound)
  then show ?case
  proof cases
    case 1
    with Cons.IH obtain w t where "cs = w @ t" "\<forall>x\<in>set w. P x" "k t = Some r" by blast
    with 1(1) have "c # cs = (c # w) @ t \<and> (\<forall>x\<in>set (c # w). P x) \<and> k t = Some r" by simp
    then show ?thesis by blast
  next
    case 2
    then have "c # cs = [] @ (c # cs) \<and> (\<forall>x\<in>set []. P x) \<and> k (c # cs) = Some r" by simp
    then show ?thesis by blast
  qed
qed

lemma is_crlf_space: "is_crlf c \<Longrightarrow> is_space c"
  by (auto simp: is_crlf_def is_space_def)

lemma yamlRegex_sound:
  assumes "yamlRegex d = Some n"
  shows "\<exists>fm rest. d = fm @ rest \<and> n = length fm \<and> frontmatter_text fm"
proof -
  from assms obtain t1 where 1: "d = ''---'' @ t1"
    and "star_greedy is_space t1 (\<lambda>s2. cls is_crlf s2 (\<lambda>s3. star_lazy any_char s3 (\<lambda>s4.
          cls is_crlf s4 (\<lambda>s5. lit ''---'' s5 (\<lambda>s6. star_greedy is_space s6 (\<lambda>s7.
          orelse (cls is_crlf s7 (\<lambda>s8. Some (length d - length s8)))
                 (eos s7 (\<lambda>s8. Some (length d - length s8))))))))) = Some n"
    unfolding yamlRegex_def by (blast dest: lit_sound)
  then obtain w t2 where 2: "t1 = w @ t2" "\<forall>x\<in>set w. is_space x"
    and "cls is_crlf t2 (\<lambda>s3. star_lazy any_char s3 (\<lambda>s4.
          cls is_crlf s4 (\<lambda>s5. lit ''---'' s5 (\<lambda>s6. star_greedy is_space s6 (\<lambda>s7.
          orelse (cls is_crlf s7 (\<lambda>s8. Some (length d - length s8)))
                 (eos s7 (\<lambda>s8. Some (length d - length s8)))))))) = Some n"
    by (blast dest: star_greedy_sound)
  then obtain c1 t3 where 3: "t2 = c1 # t3" "is_crlf c1"
    and "star_lazy any_char t3 (\<lambda>s4.
          cls is_crlf s4 (\<lambda>s5. lit ''---'' s5 (\<lambda>s6. star_greedy is_space s6 (\<lambda>s7.
          orelse (cls is_crlf s7 (\<lambda>s8. Some (length d - length s8)))
                 (eos s7 (\<lambda>s8. Some (length d - length s8))))))) = Some n"
    by (blast dest: cls_sound)
  then obtain y t4 where 4: "t3 = y @ t4"
    and "cls is_crlf t4 (\<lambda>s5. lit ''---'' s5 (\<lambda>s6. star_greedy is_space s6 (\<lambda>s7.
          orelse (cls is_crlf s7 (\<lambda>s8. Some (length d - length s8)))
                 (eos s7 (\<lambda>s8. Some (length d - length s8)))))) = Some n"
    by (blast dest: star_lazy_sound)
  then obtain c2 t5 where 5: "t4 = c2 # t5" "is_crlf c2"
    and "lit ''---'' t5 (\<lambda>s6. star_greedy is_space s6 (\<lambda>s7.
          orelse (cls is_crlf s7 (\<lambda>s8. Some (length d - length s8)))
                 (eos s7 (\<lambda>s8. Some (length d - length s8))))) = Some n"
    by (blast dest: cls_sound)
  then obtain t6 where 6: "t5 = ''---'' @ t6"
    and "star_greedy is_space t6 (\<lambda>s7.
          orelse (cls is_crlf s7 (\<lambda>s8. Some (length d - length s8)))
                 (eos s7 (\<lambda>s8. Some (length d - length s8)))) = Some n"
    by (blast dest: lit_sound)
  then obtain v t7 where 7: "t6 = v @ t7" "\<forall>x\<in>set v. is_space x"
    and "orelse (cls is_crlf t7 (\<lambda>s8. Some (length d - length s8)))
                (eos t7 (\<lambda>s8. Some (length d - length s8))) = Some n"
    by (blast dest: star_greedy_sound)
  then consider c t8 where "t7 = c # t8" "is_crlf c" "n = length d - length t8"
    | "t7 = []" "n = length d"
    by (auto dest!: orelse_sound cls_sound eos_sound)
  then show ?thesis
  proof cases
    case 1
    define fm where "fm = ''---'' @ w @ c1 # y @ c2 # ''---'' @ (v @ [c])"
    have "d = fm @ t8" using 1 2 3 4 5 6 7 \<open>d = ''---'' @ t1\<close> by (simp add: fm_def)
    moreover from this 1(3) have "n = length fm" by simp
    moreover have "frontmatter_text fm"
      unfolding frontmatter_text_def fm_def
      using 2(2) 3(2) 5(2) 7(2) 1(2) is_crlf_space [of c]
      by (intro exI [of _ w] exI [of _ c1] exI [of _ y] exI [of _ c2] exI [of _ "v @ [c]"]) auto
    ultimately show ?thesis by blast
  next
    case 2
    define fm where "fm = ''---'' @ w @ c1 # y @ c2 # ''---'' @ v"
    have "d = fm @ []" using 2 \<open>t1 = w @ t2\<close> 3 4 5 6 7 \<open>d = ''---'' @ t1\<close> by (simp add: fm_def)
    moreover from this 2(2) have "n = length fm" by simp
    moreover have "frontmatter_text fm"
      unfolding frontmatter_text_def fm_def
      using \<open>\<forall>x\<in>set w. is_space x\<close> 3(2) 5(2) 7(2) by blast
    ultimately show ?thesis by blast
  qed
qed

lemma split_frontmatter_Some:
  "yamlRegex d = Some n \<Longrightarrow>
   d = fst (split_frontmatter d) @ snd (split_frontmatter d) \<and>
   frontmatter_text (fst (split_frontmatter d))"
proof -
  assume y: "yamlRegex d = Some n"
  then obtain fm rest where "d = fm @ rest" "n = length fm" "frontmatter_text fm"
    using yamlRegex_sound by blast
  with y show ?thesis by (simp add: split_frontmatter_def)
qed

lemma frontmatter_text_not_Nil: "frontmatter_text fm \<Longrightarrow> fm \<noteq> []"
  by (auto simp: frontmatter_text_def)

lemma lint_frontmatter: "\<exists>rest. lint d = fst (split_frontmatter d) @ rest"
  by (simp add: lint_def split_def Let_def)

text \<open>
  Claim C7, as amended. The document is the frontmatter followed by the body, and the
  result of \<open>lint\<close> starts with the frontmatter. A frontmatter is found exactly in a
  document that starts with \<open>---\<close>, with white space only up to the end of that line,
  and that has a later line which is \<open>---\<close> and white space only; the frontmatter then
  is a text of that shape. In a document that starts with white space no frontmatter
  is found: the whole document is the body.
\<close>

theorem frontmatter_detection:
  "fst (split_frontmatter d) @ snd (split_frontmatter d) = d \<and>
   take (length (fst (split_frontmatter d))) (lint d) = fst (split_frontmatter d) \<and>
   (fst (split_frontmatter d) \<noteq> [] \<longleftrightarrow> frontmatter_shape d) \<and>
   (fst (split_frontmatter d) \<noteq> [] \<longrightarrow> frontmatter_text (fst (split_frontmatter d))) \<and>
   (d \<noteq> [] \<and> is_space (hd d) \<longrightarrow> split_frontmatter d = ([], d))"
proof -
  have pre: "take (length (fst (split_frontmatter d))) (lint d) = fst (split_frontmatter d)"
    using lint_frontmatter [of d] by auto
  show ?thesis
  proof (cases "yamlRegex d")
    case None
    then have s: "split_frontmatter d = ([], d)" by (simp add: split_frontmatter_def)
    moreover from None have "\<not> frontmatter_shape d" using yamlRegex_found [of d] by simp
    ultimately show ?thesis using pre by simp
  next
    case (Some n)
    then have 1: "d = fst (split_frontmatter d) @ snd (split_frontmatter d)"
      and 2: "frontmatter_text (fst (split_frontmatter d))"
      using split_frontmatter_Some by blast+
    from 2 have 3: "fst (split_frontmatter d) \<noteq> []" by (rule frontmatter_text_not_Nil)
    from Some have 4: "frontmatter_shape d" using yamlRegex_found [of d] by simp
    from 1 have 1: "fst (split_frontmatter d) @ snd (split_frontmatter d) = d" by simp
    have "\<not> (d \<noteq> [] \<and> is_space (hd d))"
    proof
      assume "d \<noteq> [] \<and> is_space (hd d)"
      moreover from 4 have "hd d = CHR ''-''" by (auto simp: frontmatter_shape_def)
      ultimately show False by (simp add: is_space_def)
    qed
    with 1 2 3 4 pre show ?thesis by blast
  qed
qed


theorem frontmatter_detection_witness:
  "fst (split_frontmatter ''---  \<newline>title: t\<newline>---\<newline># H'') = ''---  \<newline>title: t\<newline>---\<newline>'' \<and>
   frontmatter_shape ''---  \<newline>title: t\<newline>---\<newline># H'' \<and>
   frontmatter_text ''---  \<newline>title: t\<newline>---\<newline>'' \<and>
   split_frontmatter '' ---\<newline>---'' = ([], '' ---\<newline>---'')"
proof -
  have e: "fst (split_frontmatter ''---  \<newline>title: t\<newline>---\<newline># H'') = ''---  \<newline>title: t\<newline>---\<newline>''"
    by code_simp
  have "split_frontmatter '' ---\<newline>---'' = ([], '' ---\<newline>---'')"
    using frontmatter_detection [of "'' ---\<newline>---''"] by (simp add: is_space_def)
  with e show ?thesis
    using frontmatter_detection [of "''---  \<newline>title: t\<newline>---\<newline># H''"] by simp
qed

text \<open>
  Claim C7 as it is stated fails: with a space before the opening \<open>---\<close> no
  frontmatter is found, and the text is normalized as body text (the space is trimmed
  and a blank line is put before the heading).
\<close>

theorem frontmatter_leading_space_counterexample:
  "split_frontmatter '' ---\<newline>title: t\<newline>---\<newline># H'' = ([], '' ---\<newline>title: t\<newline>---\<newline># H'') \<and>
   lint '' ---\<newline>title: t\<newline>---\<newline># H'' = ''---\<newline>title: t\<newline>---\<newline>\<newline># H''"
  by code_simp

section \<open>Delimiters that are not closed\<close>

lemma find_first_prefix: "find_first p (p @ t) \<noteq> None"
proof (cases "p @ t")
  case Nil
  then show ?thesis by simp
next
  case (Cons c cs)
  have "take (length p) (p @ t) = p" by simp
  with Cons have "take (length p) (c # cs) = p" by simp
  then have "find_first p (c # cs) = Some ([], drop (length p) (c # cs))" by simp
  with Cons show ?thesis by simp
qed

lemma find_first_complete: "find_first p (x @ p @ t) \<noteq> None"
proof (induction x)
  case Nil
  show ?case using find_first_prefix by simp
next
  case (Cons c x)
  then show ?case by (auto split: option.splits)
qed

lemma find_first_min: "find_first p s = Some (b, a) \<Longrightarrow> s = u @ p @ t \<Longrightarrow> length b \<le> length u"
proof (induction s arbitrary: b u)
  case Nil
  then show ?case by (auto split: if_splits)
next
  case (Cons c cs)
  show ?case
  proof (cases "take (length p) (c # cs) = p")
    case True
    with Cons.prems(1) show ?thesis by simp
  next
    case False
    with Cons.prems(1) obtain b' where b': "find_first p cs = Some (b', a)" "b = c # b'"
      by (auto split: option.splits)
    from False Cons.prems(2) have "u \<noteq> []" by auto
    then obtain u' where u': "u = c # u'" "cs = u' @ p @ t" using Cons.prems(2) by (cases u) auto
    with b' Cons.IH show ?thesis by simp
  qed
qed

lemma codeBlockRegex_found: "codeBlockRegex s \<noteq> None \<longleftrightarrow> (\<exists>y t. s = fence @ y @ fence @ t)"
  unfolding codeBlockRegex_def lit_found star_lazy_found
  by (simp add: any_char_def) blast

lemma replace_all_none:
  "\<forall>u t. s = u @ t \<longrightarrow> rx t = None \<Longrightarrow> replace_all rx f st s = (s, st)"
proof (induction s)
  case Nil
  then show ?case by simp
next
  case (Cons c cs)
  have "rx (c # cs) = None" using Cons.prems by (metis append_Nil)
  moreover have "\<forall>u t. cs = u @ t \<longrightarrow> rx t = None" using Cons.prems by (metis append_Cons)
  ultimately show ?case using Cons.IH by simp
qed


lemma restore_code_Nil [simp]: "restore_code [] x = x"
  by (simp add: restore_code_def)

text \<open>
  Claim C2 fails on the code: the restoration gives the original block to \<open>replace\<close>
  as the replacement string, in which \<open>$$\<close> is a pattern for one dollar sign.
\<close>

theorem code_block_dollars_changed:
  "lint (fence @ LF # ''echo $$'' @ LF # fence) = fence @ LF # ''echo $'' @ LF # fence"
  by code_simp

section \<open>Idempotence of the normalizer\<close>

subsection \<open>A blank entry between a list item and other text, when the lines are stable\<close>

lemma list_sep_blank [simp]: "list_sep a []" "list_sep [] b"
  by (simp_all add: list_sep_def is_other_def)



subsection \<open>The lines of the result are in normal form\<close>

lemma is_other_trimStart [simp]: "is_other (trimStart l) \<longleftrightarrow> is_other l"
  by (simp add: is_other_def)


subsection \<open>The loop leaves a list in normal form as it is\<close>






lemma lmt_of_Nil [simp]: "lmt_of [] = None"
  by (simp add: lmt_of_def last_nonblank_def)

subsection \<open>The post-pass leaves the lines of a result as they are\<close>




subsection \<open>The second application\<close>



subsection \<open>The characters and the first line of the result\<close>





lemma trimStart_space [simp]: "is_space c \<Longrightarrow> trimStart (c # s) = trimStart s"
  by (simp add: trimStart_def)




subsection \<open>Documents in which nothing is protected\<close>








text \<open>
  Two more ways in which a second application differs from the first, which the
  amended claim leaves out: an inline span opened twice, of which the first pass
  rewrites the outer part only, and a code block with dollar signs, which every
  restoration halves.
\<close>

lemma nested_math_second_pass:
  "lint (BSL # ''('' @ BSL # ''(a'' @ BSL # '')'' @ BSL # '')'') = ''$'' @ BSL # ''(a$'' @ BSL # '')'' \<and>
   lint (''$'' @ BSL # ''(a$'' @ BSL # '')'') = ''$$a$$''"
  by code_simp

lemma code_block_dollars_second_pass:
  "lint (fence @ ''$$$$'' @ fence) = fence @ ''$$'' @ fence \<and>
   lint (fence @ ''$$'' @ fence) = fence @ ''$'' @ fence"
  by code_simp

section \<open>The blank lines of the result\<close>

lemma blank_run_short:
  assumes "successively not_both_blank ls" and "ls = pre @ bs @ post" and "\<forall>x\<in>set bs. isBlank x"
  shows "length bs \<le> 1"
proof (rule ccontr)
  assume "\<not> length bs \<le> 1"
  then obtain b1 b2 r where bs: "bs = b1 # b2 # r" by (cases bs; cases "tl bs") auto
  from assms(1,2) have "successively not_both_blank (bs @ post)" using successively_suffix by blast
  with bs have "not_both_blank b1 b2" by simp
  with bs assms(3) show False by (simp add: not_both_blank_def)
qed

lemma successively_lines_normalize:
  "successively not_both_blank (split_lines (normalize_lines t))"
proof -
  let ?nl = "line_loop (split_lines t) [] None"
  have "successively not_both_blank ?nl" using line_loop_inv by blast
  then have "successively not_both_blank (out_lines ?nl)"
    by (rule successively_out) (simp add: not_both_blank_def)
  then show ?thesis by (simp add: split_lines_normalize)
qed

text \<open>
  Claim C5. The result of \<open>modifyContentProtected\<close> holds no three line feeds in a
  row. Of its lines, no two in a row are blank (a line is blank when \<open>trim\<close> leaves
  nothing of it), so that every run of blank lines, and with it the run between two
  lines that are not blank, has at most one line. The result is empty or starts and
  ends with a character that is not white space, so that it has no blank line and no
  white space at either end. The four line feeds of the example become two.
\<close>

theorem blank_run_bound:
  "\<not> (\<exists>pre post. modifyContentProtected content = pre @ [LF, LF, LF] @ post) \<and>
   successively not_both_blank (split_lines (modifyContentProtected content)) \<and>
   (\<forall>pre bs post.
      split_lines (modifyContentProtected content) = pre @ bs @ post \<and> (\<forall>x\<in>set bs. isBlank x)
      \<longrightarrow> length bs \<le> 1) \<and>
   (modifyContentProtected content = [] \<or>
    \<not> is_space (hd (modifyContentProtected content)) \<and>
    \<not> is_space (last (modifyContentProtected content))) \<and>
   modifyContentProtected ''Para1\<newline>\<newline>\<newline>\<newline>Para2'' = ''Para1\<newline>\<newline>Para2''"
proof -
  obtain y where m: "modifyContentProtected content = trim (collapse y)"
    by (simp add: modifyContentProtected_eq normalize_lines_def finish_eq)
  have ok: "lf_run_ok 0 (collapse y)" by (rule lf_run_ok_collapse) simp
  obtain w1 w2 where w: "collapse y = w1 @ trim (collapse y) @ w2" using trim_decomp by blast
  have 1: "\<not> (\<exists>pre post. modifyContentProtected content = pre @ [LF, LF, LF] @ post)"
  proof
    assume "\<exists>pre post. modifyContentProtected content = pre @ [LF, LF, LF] @ post"
    then obtain pre post where "trim (collapse y) = pre @ [LF, LF, LF] @ post" using m by auto
    with w have "collapse y = (w1 @ pre) @ LF # LF # LF # (post @ w2)" by simp
    with ok lf_run_ok_three [of 0 "w1 @ pre" "post @ w2"] show False by simp
  qed
  have 2: "successively not_both_blank (split_lines (modifyContentProtected content))"
    by (simp add: modifyContentProtected_eq successively_lines_normalize)
  have 3: "\<forall>pre bs post.
      split_lines (modifyContentProtected content) = pre @ bs @ post \<and> (\<forall>x\<in>set bs. isBlank x)
      \<longrightarrow> length bs \<le> 1"
    using 2 blank_run_short by blast
  have 4: "modifyContentProtected content = [] \<or>
    \<not> is_space (hd (modifyContentProtected content)) \<and>
    \<not> is_space (last (modifyContentProtected content))"
    using trim_ends [of "collapse y"] by (simp add: m)
  have 5: "modifyContentProtected ''Para1\<newline>\<newline>\<newline>\<newline>Para2'' = ''Para1\<newline>\<newline>Para2''"
    by code_simp
  from 1 2 3 4 5 show ?thesis by blast
qed

theorem blank_run_bound_witness:
  "split_lines (modifyContentProtected ''Para1\<newline>  \<newline>\<newline>\<newline>Para2'') = [''Para1''] @ [[]] @ [''Para2''] \<and>
   isBlank [] \<and> length [[] :: string] \<le> 1"
proof -
  have s: "split_lines (modifyContentProtected ''Para1\<newline>  \<newline>\<newline>\<newline>Para2'') = [''Para1''] @ [[]] @ [''Para2'']"
    by code_simp
  moreover have "\<forall>x\<in>set [[] :: string]. isBlank x" by simp
  ultimately have "length [[] :: string] \<le> 1"
    using blank_run_bound [of "''Para1\<newline>  \<newline>\<newline>\<newline>Para2''"] by blast
  with s show ?thesis by simp
qed

section \<open>Code-block protection, against the specification\<close>

lemma find_first_before: "find_first p s = Some (b, a) \<Longrightarrow> p \<noteq> [] \<Longrightarrow> find_first p b = None"
proof (induction s arbitrary: b)
  case Nil
  then show ?case by (auto split: if_splits)
next
  case (Cons c cs)
  show ?case
  proof (cases "take (length p) (c # cs) = p")
    case True
    with Cons.prems show ?thesis by simp
  next
    case False
    with Cons.prems obtain b' where f: "find_first p cs = Some (b', a)" and b: "b = c # b'"
      by (auto split: option.splits)
    from f Cons.prems(2) have n: "find_first p b' = None" by (rule Cons.IH)
    from f have cs: "cs = b' @ p @ a" by (rule find_first_Some)
    have "take (length p) (c # b') \<noteq> p"
    proof
      assume t: "take (length p) (c # b') = p"
      then have "length p \<le> length (c # b')" by (metis length_take min.cobounded1)
      then have "take (length p) (c # cs) = take (length p) (c # b')"
        using cs take_append [of "length p" "c # b'" "p @ a"] by simp
      with t False show False by simp
    qed
    with n b show ?thesis by simp
  qed
qed

lemma find_first_resuffix:
  "find_first p (b @ p @ a) = Some (b, a) \<Longrightarrow> find_first p (b @ p @ a') = Some (b, a')"
proof (induction b)
  case Nil
  show ?case by (cases p; cases a') simp_all
next
  case (Cons c b)
  have ne: "take (length p) (c # b @ p @ a) \<noteq> p"
  proof
    assume "take (length p) (c # b @ p @ a) = p"
    then have "find_first p ((c # b) @ p @ a) = Some ([], drop (length p) (c # b @ p @ a))" by simp
    with Cons.prems show False by simp
  qed
  have "take (length p) (c # b @ p @ a) = take (length p) (c # b @ p)"
    using take_append [of "length p" "c # b @ p" a] by simp
  moreover have "take (length p) (c # b @ p @ a') = take (length p) (c # b @ p)"
    using take_append [of "length p" "c # b @ p" a'] by simp
  ultimately have ne': "take (length p) (c # b @ p @ a') \<noteq> p" using ne by simp
  from ne Cons.prems have "find_first p (b @ p @ a) = Some (b, a)"
    by (auto split: option.splits)
  then have "find_first p (b @ p @ a') = Some (b, a')" by (rule Cons.IH)
  with ne' show ?case by simp
qed

lemma find_first_again:
  "find_first p s = Some (b, a) \<Longrightarrow> find_first p (b @ p @ a') = Some (b, a')"
  using find_first_Some find_first_resuffix by metis

lemma star_lazy_lit:
  "star_lazy any_char s (\<lambda>s2. lit p s2 (\<lambda>s3. Some (g s3))) =
     map_option (\<lambda>(b, a). g a) (find_first p s)"
  by (induction s) (auto simp: lit_def any_char_def split: option.splits)

lemma codeBlockRegex_eq:
  "codeBlockRegex s =
     (if take 3 s = fence then
        map_option (\<lambda>(body, rest). ((), length s - length rest)) (find_first fence (drop 3 s))
      else None)"
proof -
  have l3: "length fence = 3" by (simp add: fence_def)
  have "codeBlockRegex s =
      lit fence s (\<lambda>s1. map_option (\<lambda>(b, a). ((), length s - length a)) (find_first fence s1))"
    unfolding codeBlockRegex_def star_lazy_lit ..
  then show ?thesis by (simp add: lit_def l3)
qed

lemma replace_all_skip:
  assumes "\<forall>u t. pre = u @ t \<and> t \<noteq> [] \<longrightarrow> rx (t @ s) = None"
  shows "replace_all rx f st (pre @ s) =
           (pre @ fst (replace_all rx f st s), snd (replace_all rx f st s))"
  using assms
proof (induction pre)
  case Nil
  then show ?case by simp
next
  case (Cons c pre)
  have "rx ((c # pre) @ s) = None" using Cons.prems by (metis append_Nil list.distinct(1))
  moreover have "\<forall>u t. pre = u @ t \<and> t \<noteq> [] \<longrightarrow> rx (t @ s) = None"
    using Cons.prems by (metis append_Cons)
  ultimately show ?case using Cons.IH by (simp add: split_def)
qed

text \<open>No suffix of a text that starts before its first fence starts with a fence.\<close>

lemma before_first_fence:
  assumes "find_first fence s = Some (pre, post)" and "pre = u @ t" and "t \<noteq> []"
  shows "codeBlockRegex (t @ fence @ post) = None"
proof -
  have "take 3 (t @ fence @ post) \<noteq> fence"
  proof
    assume "take 3 (t @ fence @ post) = fence"
    then obtain r where "t @ fence @ post = fence @ r" by (metis append_take_drop_id)
    moreover from assms(1) have "s = pre @ fence @ post" by (rule find_first_Some)
    ultimately have "s = u @ fence @ r" using assms(2) by simp
    with assms(1) have "length pre \<le> length u" by (rule find_first_min)
    with assms(2,3) show False by simp
  qed
  then show ?thesis by (simp add: codeBlockRegex_eq)
qed

text \<open>A text in which no fence follows the first fence has no span that the pattern matches.\<close>

lemma codeBlockRegex_unterminated:
  assumes "\<forall>pre post. find_first fence b = Some (pre, post) \<longrightarrow> find_first fence post = None"
    and "b = u @ t"
  shows "codeBlockRegex t = None"
proof (rule ccontr)
  assume "codeBlockRegex t \<noteq> None"
  then obtain y t' where t: "t = fence @ y @ fence @ t'" using codeBlockRegex_found by blast
  with assms(2) have b2: "b = u @ fence @ (y @ fence @ t')" by simp
  then have "find_first fence b \<noteq> None" using find_first_complete by metis
  then obtain pre post where f: "find_first fence b = Some (pre, post)" by auto
  then have b3: "b = pre @ fence @ post" by (rule find_first_Some)
  from f b2 have le: "length pre \<le> length u" by (rule find_first_min)
  have "drop (length pre + length fence) b = post" using b3 by simp
  moreover have "drop (length pre + length fence) b =
      drop (length pre + length fence) (u @ fence @ y) @ fence @ t'"
    using le by (simp add: b2)
  ultimately have "post = drop (length pre + length fence) (u @ fence @ y) @ fence @ t'" by simp
  then have "find_first fence post \<noteq> None" using find_first_complete by metis
  moreover from f assms(1) have "find_first fence post = None" by simp
  ultimately show False by simp
qed

lemma replace_all_Some:
  "s \<noteq> [] \<Longrightarrow> rx s = Some (m, n) \<Longrightarrow> 0 < n \<Longrightarrow>
   replace_all rx f st s =
     (fst (f st (take n s) m) @ fst (replace_all rx f (snd (f st (take n s) m)) (drop n s)),
      snd (replace_all rx f (snd (f st (take n s) m)) (drop n s)))"
  by (cases s; cases n) (simp_all add: split_def Let_def)

lemma protect_from_spec:
  "length ps = i \<Longrightarrow>
   replace_all codeBlockRegex
     (\<lambda>placeholders match _.
        (let placeholders' = placeholders @ [match]
         in (placeholder_token (length placeholders' - 1), placeholders')))
     ps s =
   (fst (spec_protect i s), ps @ snd (spec_protect i s))"
proof (induction i s arbitrary: ps rule: spec_protect.induct)
  case (1 i s)
  let ?f = "\<lambda>placeholders match (_ :: unit).
        (let placeholders' = placeholders @ [match]
         in (placeholder_token (length placeholders' - 1), placeholders'))"
  show ?case
  proof (cases "find_first fence s")
    case None
    then have "\<forall>pre post. find_first fence s = Some (pre, post) \<longrightarrow> find_first fence post = None"
      by simp
    then have "\<forall>u t. s = u @ t \<longrightarrow> codeBlockRegex t = None"
      using codeBlockRegex_unterminated by blast
    then have "replace_all codeBlockRegex ?f ps s = (s, ps)" by (rule replace_all_none)
    with None show ?thesis by (simp add: spec_protect.simps [of _ s])
  next
    case (Some x)
    then obtain pre post where f: "find_first fence s = Some (pre, post)" by (cases x) auto
    show ?thesis
    proof (cases "find_first fence post")
      case None
      with f have "\<forall>pre post. find_first fence s = Some (pre, post) \<longrightarrow> find_first fence post = None"
        by simp
      then have "\<forall>u t. s = u @ t \<longrightarrow> codeBlockRegex t = None"
        using codeBlockRegex_unterminated by blast
      then have "replace_all codeBlockRegex ?f ps s = (s, ps)" by (rule replace_all_none)
      with None f show ?thesis by (simp add: spec_protect.simps [of _ s])
    next
      case (Some y)
      then obtain body rest where g: "find_first fence post = Some (body, rest)" by (cases y) auto
      from f have s: "s = pre @ fence @ post" by (rule find_first_Some)
      from g have post: "post = body @ fence @ rest" by (rule find_first_Some)
      have skip: "\<forall>u t. pre = u @ t \<and> t \<noteq> [] \<longrightarrow> codeBlockRegex (t @ fence @ post) = None"
        using f before_first_fence by blast
      have l3: "length fence = 3" by (simp add: fence_def)
      define n where "n = 6 + length body"
      have m: "codeBlockRegex (fence @ post) = Some ((), n)"
        using g post l3 by (simp add: codeBlockRegex_eq n_def)
      have d: "drop n (fence @ post) = rest" and t: "take n (fence @ post) = fence @ body @ fence"
        using post l3 by (simp_all add: n_def)
      have ne: "fence @ post \<noteq> []" by (simp add: fence_def)
      have "0 < n" by (simp add: n_def)
      with ne m have step: "replace_all codeBlockRegex ?f ps (fence @ post) =
          (fst (?f ps (take n (fence @ post)) ()) @
             fst (replace_all codeBlockRegex ?f (snd (?f ps (take n (fence @ post)) ())) (drop n (fence @ post))),
           snd (replace_all codeBlockRegex ?f (snd (?f ps (take n (fence @ post)) ())) (drop n (fence @ post))))"
        by (rule replace_all_Some)
      have IH: "replace_all codeBlockRegex ?f (ps @ [fence @ body @ fence]) rest =
          (fst (spec_protect (Suc i) rest),
           (ps @ [fence @ body @ fence]) @ snd (spec_protect (Suc i) rest))"
        using "1.IH" [OF f refl g refl, of "ps @ [fence @ body @ fence]"] "1.prems" by simp
      have step': "replace_all codeBlockRegex ?f ps (fence @ post) =
          (placeholder_token i @ fst (spec_protect (Suc i) rest),
           ps @ (fence @ body @ fence) # snd (spec_protect (Suc i) rest))"
        unfolding step d t using IH "1.prems" by (simp add: Let_def)
      have "replace_all codeBlockRegex ?f ps (pre @ fence @ post) =
          (pre @ fst (replace_all codeBlockRegex ?f ps (fence @ post)),
           snd (replace_all codeBlockRegex ?f ps (fence @ post)))"
        using skip by (rule replace_all_skip)
      moreover have "spec_protect i s =
          (pre @ placeholder_token i @ fst (spec_protect (Suc i) rest),
           (fence @ body @ fence) # snd (spec_protect (Suc i) rest))"
        using f g by (simp add: spec_protect.simps [of _ s] split_def Let_def)
      ultimately show ?thesis using step' s by simp
    qed
  qed
qed

lemma protect_code_spec: "protect_code s = spec_protect 0 s"
  using protect_from_spec [of "[]" 0 s] by (simp add: protect_code_def)

lemma spec_protect_unclosed:
  "unclosed_fence s = Some t \<Longrightarrow>
   \<exists>h. s = h @ t \<and> unclosed_fence h = None \<and>
       spec_protect i s = (fst (spec_protect i h) @ t, snd (spec_protect i h))"
proof (induction s arbitrary: i rule: unclosed_fence.induct)
  case (1 s)
  from "1.prems" obtain pre post where f: "find_first fence s = Some (pre, post)"
    by (auto simp: unclosed_fence.simps [of s] split: option.splits)
  then have s: "s = pre @ fence @ post" by (rule find_first_Some)
  have fne: "fence \<noteq> []" by (simp add: fence_def)
  show ?case
  proof (cases "find_first fence post")
    case None
    with f "1.prems" have t: "t = fence @ post" by (simp add: unclosed_fence.simps [of s])
    from f fne have n: "find_first fence pre = None" by (rule find_first_before)
    then have "spec_protect i pre = (pre, [])" "unclosed_fence pre = None"
      by (simp_all add: spec_protect.simps [of _ pre] unclosed_fence.simps [of pre])
    moreover from f None have "spec_protect i s = (s, [])" by (simp add: spec_protect.simps [of _ s])
    ultimately show ?thesis using s t by auto
  next
    case (Some y)
    then obtain body rest where g: "find_first fence post = Some (body, rest)" by (cases y) auto
    then have post: "post = body @ fence @ rest" by (rule find_first_Some)
    from f g "1.prems" have "unclosed_fence rest = Some t" by (simp add: unclosed_fence.simps [of s])
    then obtain h where h: "rest = h @ t" "unclosed_fence h = None"
      "spec_protect (Suc i) rest = (fst (spec_protect (Suc i) h) @ t, snd (spec_protect (Suc i) h))"
      using "1.IH" [OF f refl g refl, of "Suc i"] by auto
    let ?h = "pre @ fence @ body @ fence @ h"
    have f': "find_first fence ?h = Some (pre, body @ fence @ h)" using f by (rule find_first_again)
    have g': "find_first fence (body @ fence @ h) = Some (body, h)" using g by (rule find_first_again)
    have 1: "s = ?h @ t" using s post h(1) by simp
    have 2: "unclosed_fence ?h = None" using f' g' h(2) by (simp add: unclosed_fence.simps [of ?h])
    have 3: "spec_protect i ?h =
        (pre @ placeholder_token i @ fst (spec_protect (Suc i) h),
         (fence @ body @ fence) # snd (spec_protect (Suc i) h))"
      using f' g' by (simp add: spec_protect.simps [of _ ?h] split_def Let_def)
    have 4: "spec_protect i s =
        (pre @ placeholder_token i @ fst (spec_protect (Suc i) rest),
         (fence @ body @ fence) # snd (spec_protect (Suc i) rest))"
      using f g by (simp add: spec_protect.simps [of _ s] split_def Let_def)
    from 1 2 3 4 h(3) show ?thesis by (intro exI [of _ ?h]) simp
  qed
qed

lemma lint_unfold:
  "lint d =
     fst (split_frontmatter d) @
     restore_code (snd (protect_code (snd (split_frontmatter d))))
       (modifyContentProtected (fst (protect_code (snd (split_frontmatter d)))))"
  by (simp add: lint_def split_def Let_def)

text \<open>
  Claim C8. No step of the extraction raises an error: each is a total function, and a
  pattern that finds nothing gives the value \<open>None\<close>. A document that is not of the
  shape of a frontmatter followed by a body, as one that opens with \<open>---\<close> and has no
  later line that is \<open>---\<close> and white space only, has no frontmatter: the body is the
  whole document, opening line included. The code blocks of a body are the spans from a
  fence to the next fence, from left to right, and a fence with no fence after it opens
  none: when the body has such a fence, after code blocks or not, the text from that
  fence on stays in the protected text as it is, behind what the protection makes of
  the text before it. So an unmatched opening delimiter goes to
  \<open>modifyContentProtected\<close> with the text around it.
\<close>

theorem unterminated_regions:
  "(\<not> frontmatter_shape d \<longrightarrow>
      split_frontmatter d = ([], d) \<and>
      lint d = restore_code (snd (protect_code d)) (modifyContentProtected (fst (protect_code d)))) \<and>
   protect_code b = spec_protect 0 b \<and>
   (unclosed_fence b = Some t \<longrightarrow>
      (\<exists>h. b = h @ t \<and> unclosed_fence h = None \<and>
           protect_code b = (fst (protect_code h) @ t, snd (protect_code h)))) \<and>
   (\<not> frontmatter_shape d \<and> unclosed_fence d = Some t \<longrightarrow>
      (\<exists>h. d = h @ t \<and>
           lint d = restore_code (snd (protect_code h)) (modifyContentProtected (fst (protect_code h) @ t))))"
proof -
  have fm: "split_frontmatter d = ([], d)" if "\<not> frontmatter_shape d"
  proof -
    from that have "yamlRegex d = None" using yamlRegex_found by blast
    then show ?thesis by (simp add: split_frontmatter_def)
  qed
  then have 1: "\<not> frontmatter_shape d \<longrightarrow>
      split_frontmatter d = ([], d) \<and>
      lint d = restore_code (snd (protect_code d)) (modifyContentProtected (fst (protect_code d)))"
    by (simp add: lint_unfold)
  have 2: "protect_code b = spec_protect 0 b" by (rule protect_code_spec)
  have 3: "\<exists>h. s = h @ t \<and> unclosed_fence h = None \<and>
           protect_code s = (fst (protect_code h) @ t, snd (protect_code h))"
    if "unclosed_fence s = Some t" for s
    using spec_protect_unclosed [OF that, of 0] by (simp add: protect_code_spec)
  have 4: "\<exists>h. d = h @ t \<and>
           lint d = restore_code (snd (protect_code h)) (modifyContentProtected (fst (protect_code h) @ t))"
    if "\<not> frontmatter_shape d" "unclosed_fence d = Some t"
  proof -
    from 3 [OF that(2)] obtain h where "d = h @ t"
      "protect_code d = (fst (protect_code h) @ t, snd (protect_code h))" by blast
    with 1 that(1) show ?thesis by (intro exI [of _ h]) simp
  qed
  from 1 2 3 4 show ?thesis by blast
qed

theorem unterminated_regions_witness:
  "\<not> frontmatter_shape ''---\<newline>a: 1\<newline>----\<newline># H\<newline>x'' \<and>
   split_frontmatter ''---\<newline>a: 1\<newline>----\<newline># H\<newline>x'' = ([], ''---\<newline>a: 1\<newline>----\<newline># H\<newline>x'') \<and>
   lint ''---\<newline>a: 1\<newline>----\<newline># H\<newline>x'' = ''---\<newline>a: 1\<newline>----\<newline>\<newline># H\<newline>\<newline>x'' \<and>
   unclosed_fence (fence @ ''a'' @ fence @ '' x  \<newline>'' @ fence @ ''js'' @ LF # BSL # ''(y'' @ BSL # '')'') =
     Some (fence @ ''js'' @ LF # BSL # ''(y'' @ BSL # '')'') \<and>
   protect_code (fence @ ''a'' @ fence @ '' x  \<newline>'' @ fence @ ''js'' @ LF # BSL # ''(y'' @ BSL # '')'') =
     (placeholder_token 0 @ '' x  \<newline>'' @ fence @ ''js'' @ LF # BSL # ''(y'' @ BSL # '')'', [fence @ ''a'' @ fence]) \<and>
   lint (fence @ ''a'' @ fence @ '' x  \<newline>'' @ fence @ ''js'' @ LF # BSL # ''(y'' @ BSL # '')'') =
     fence @ ''a'' @ fence @ '' x\<newline>'' @ fence @ ''js'' @ LF # ''$y$''"
proof -
  let ?d = "''---\<newline>a: 1\<newline>----\<newline># H\<newline>x''"
  let ?t = "fence @ ''js'' @ LF # BSL # ''(y'' @ BSL # '')''"
  let ?b = "fence @ ''a'' @ fence @ '' x  \<newline>'' @ ?t"
  have "yamlRegex ?d = None" by code_simp
  then have 1: "\<not> frontmatter_shape ?d" using yamlRegex_found [of ?d] by simp
  have "yamlRegex ?b = None" by code_simp
  then have 2: "\<not> frontmatter_shape ?b" using yamlRegex_found [of ?b] by simp
  have 3: "unclosed_fence ?b = Some ?t" by code_simp
  have 4: "lint ?d = ''---\<newline>a: 1\<newline>----\<newline>\<newline># H\<newline>\<newline>x''" by code_simp
  have 5: "protect_code ?b = (placeholder_token 0 @ '' x  \<newline>'' @ ?t, [fence @ ''a'' @ fence])"
    by code_simp
  have 6: "lint ?b = fence @ ''a'' @ fence @ '' x\<newline>'' @ fence @ ''js'' @ LF # ''$y$''" by code_simp
  from 1 have 7: "split_frontmatter ?d = ([], ?d)"
    using unterminated_regions [of ?d ?b ?t] by blast
  from 1 3 4 5 6 7 show ?thesis by simp
qed

end
